theory Spec2Isabelle
  imports Complex_Main "HOL-Library.Sublist" "HOL-Library.Multiset"
begin

section \<open>Data model\<close>

text \<open>
  The board is the \<open>pattern\<close> array of arrays that \<open>analyzeGrid\<close> builds: 8 rows of 8
  numbers, each 0 or 1. Indices (anchors, offsets, loop counters) are array indices and
  loop counters of the source, hence natural numbers.

  JavaScript reads outside an array give \<open>undefined\<close>, and indexing \<open>undefined\<close> throws a
  \<open>TypeError\<close>: this is the error \<open>TypeError\<close> below. A write at the end of a row appends
  to the row. A write beyond the end makes the row longer and leaves holes, which a list
  of numbers cannot hold: the model does not follow such a board and stops there with
  \<open>SparseRow\<close>. None of this happens on an 8 by 8 board.
\<close>

type_synonym board = "nat list list"

datatype error = TypeError | SparseRow

record offset =
  dr :: nat
  dc :: nat

definition is8x8 :: "board \<Rightarrow> bool" where
  "is8x8 b = (length b = 8 \<and> (\<forall>row \<in> set b. length row = 8))"

definition binary :: "board \<Rightarrow> bool" where
  "binary b = (\<forall>row \<in> set b. \<forall>v \<in> set row. v = 0 \<or> v = 1)"

text \<open>\<open>cellAt b i j\<close> is the value of \<open>b[i][j]\<close> for a row \<open>i\<close> that exists: \<open>None\<close> is
  \<open>undefined\<close>.\<close>

definition cellAt :: "board \<Rightarrow> nat \<Rightarrow> nat \<Rightarrow> nat option" where
  "cellAt b i j = (if j < length (b ! i) then Some (b ! i ! j) else None)"

section \<open>Legality of a placement: \<open>canFit\<close>\<close>

text \<open>
  \<^verbatim>\<open>
  function canFit(b, offsets, r, c) {
      for (let off of offsets) {
          let rr = r + off.dr, cc = c + off.dc;
          if (rr >= 8 || cc >= 8 || b[rr][cc] === 1) return false;
      }
      return true;
  }
  \<close>
\<close>

fun canFit :: "board \<Rightarrow> offset list \<Rightarrow> nat \<Rightarrow> nat \<Rightarrow> error + bool" where
  "canFit b [] r c = Inr True"
| "canFit b (off # offsets) r c =
     (let rr = r + dr off; cc = c + dc off in
      if rr \<ge> 8 \<or> cc \<ge> 8 then Inr False
      else if rr \<ge> length b then Inl TypeError
      else if cellAt b rr cc = Some 1 then Inr False
      else canFit b offsets r c)"

section \<open>Applying a placement: \<open>applyMove\<close>\<close>

text \<open>
  \<^verbatim>\<open>
  function applyMove(b, offsets, r, c) {
      const nextB = b.map(row => [...row]);
      offsets.forEach(off => nextB[r + off.dr][c + off.dc] = 1);
      let rows = [], cols = [];
      for (let i = 0; i < 8; i++) {
          if (nextB[i].every(v => v === 1)) rows.push(i);
          let full = true;
          for (let j = 0; j < 8; j++) if (nextB[j][i] === 0) { full = false; break; }
          if (full) cols.push(i);
      }
      rows.forEach(ri => nextB[ri].fill(0));
      cols.forEach(ci => { for (let ri = 0; ri < 8; ri++) nextB[ri][ci] = 0; });
      return { board: nextB, cleared: rows.length + cols.length };
  }
  \<close>
  Lists are values, so the copy \<open>nextB\<close> is \<open>b\<close> itself. The detection loop reads
  \<open>nextB[i]\<close> for every \<open>i\<close> below 8, so it throws exactly when \<open>nextB\<close> has fewer than 8
  rows; \<open>rowFull\<close> and \<open>colFull\<close> are the two tests of that loop and are used under this
  guard. \<open>markCells\<close> is the first \<open>forEach\<close>, \<open>fillRow\<close> is \<open>fill(0)\<close> on a row, and \<open>clearCol\<close>
  is the loop that clears one column.
\<close>

definition setCell :: "board \<Rightarrow> nat \<Rightarrow> nat \<Rightarrow> nat \<Rightarrow> error + board" where
  "setCell nextB i j v =
     (if i \<ge> length nextB then Inl TypeError
      else if j < length (nextB ! i) then Inr (nextB[i := (nextB ! i)[j := v]])
      else if j = length (nextB ! i) then Inr (nextB[i := nextB ! i @ [v]])
      else Inl SparseRow)"

fun markCells :: "board \<Rightarrow> offset list \<Rightarrow> nat \<Rightarrow> nat \<Rightarrow> error + board" where
  "markCells nextB [] r c = Inr nextB"
| "markCells nextB (off # offsets) r c =
     (case setCell nextB (r + dr off) (c + dc off) 1 of
        Inl e \<Rightarrow> Inl e
      | Inr nb \<Rightarrow> markCells nb offsets r c)"

definition rowFull :: "board \<Rightarrow> nat \<Rightarrow> bool" where
  "rowFull nextB i = list_all (\<lambda>v. v = 1) (nextB ! i)"

definition colFull :: "board \<Rightarrow> nat \<Rightarrow> bool" where
  "colFull nextB i = (\<not> list_ex (\<lambda>j. cellAt nextB j i = Some 0) [0..<8])"

definition fillRow :: "nat \<Rightarrow> board \<Rightarrow> board" where
  "fillRow ri nextB = nextB[ri := replicate (length (nextB ! ri)) 0]"

fun clearCol :: "nat \<Rightarrow> nat list \<Rightarrow> board \<Rightarrow> error + board" where
  "clearCol ci [] nextB = Inr nextB"
| "clearCol ci (ri # ris) nextB =
     (case setCell nextB ri ci 0 of
        Inl e \<Rightarrow> Inl e
      | Inr nb \<Rightarrow> clearCol ci ris nb)"

fun clearCols :: "nat list \<Rightarrow> board \<Rightarrow> error + board" where
  "clearCols [] nextB = Inr nextB"
| "clearCols (ci # cols) nextB =
     (case clearCol ci [0..<8] nextB of
        Inl e \<Rightarrow> Inl e
      | Inr nb \<Rightarrow> clearCols cols nb)"

definition applyMove :: "board \<Rightarrow> offset list \<Rightarrow> nat \<Rightarrow> nat \<Rightarrow> error + (board \<times> nat)" where
  "applyMove b offsets r c =
     (case markCells b offsets r c of
        Inl e \<Rightarrow> Inl e
      | Inr nextB \<Rightarrow>
          if length nextB < 8 then Inl TypeError
          else
            let rows = filter (rowFull nextB) [0..<8];
                cols = filter (colFull nextB) [0..<8]
            in case clearCols cols (fold fillRow rows nextB) of
                 Inl e \<Rightarrow> Inl e
               | Inr nb \<Rightarrow> Inr (nb, length rows + length cols))"

section \<open>The scoring function: \<open>calculateStrategyScore\<close>\<close>

text \<open>
  \<^verbatim>\<open>
  function calculateStrategyScore(board, totalCleared) {
      let score = 5000 + (totalCleared * 200);
      for (let r = 0; r <= 5; r++) {
          for (let c = 0; c <= 5; c++) {
              let empty = true;
              for (let rr = 0; rr < 3 && empty; rr++) {
                  for (let cc = 0; cc < 3; cc++)
                      if (board[r + rr][c + cc] === 1) { empty = false; break; }
              }
              if (empty) score += 50;
          }
      }
      for (let i = 0; i < 8; i++) {
          let hMax = 0, hCur = 0, vMax = 0, vCur = 0;
          for (let j = 0; j < 8; j++) {
              if (board[i][j] === 0) hCur++; else { hMax = Math.max(hMax, hCur); hCur = 0; }
              if (board[j][i] === 0) vCur++; else { vMax = Math.max(vMax, vCur); vCur = 0; }
          }
          if (Math.max(hMax, hCur) >= 5) score += 30;
          if (Math.max(vMax, vCur) >= 5) score += 30;
      }
      return score + (64 - board.flat().reduce((a, b) => a + b, 0));
  }
  \<close>
  The streak loop reads \<open>board[i][0]\<close> for every \<open>i\<close> below 8 and no loop reads a row
  beyond the eighth, so the function throws exactly when the board has fewer than 8 rows.
  \<open>windowEmpty\<close> is the value of \<open>empty\<close> after the two inner loops of the first part and
  \<open>streakStep\<close> the body of the loop over \<open>j\<close>; they are used under the guard on the number of
  rows.

  The score is a JavaScript number, a double. A double holds every integer of magnitude up
  to \<open>2 ^ 53\<close>; a sum or product beyond that is rounded to the nearest double, which keeps 53
  significant bits, a tie going to the even one. \<open>ulp a\<close> is the distance between the doubles
  around \<open>a\<close>, \<open>nearestDouble\<close> the rounding of a non-negative integer and \<open>toDouble\<close> the rounding
  of an integer. \<open>toDouble\<close> is applied to the result of every addition, subtraction and
  multiplication of the function, in the order of the source: \<open>addWindows\<close> is the first pair
  of loops, \<open>addStreak\<close> one round of the loop over \<open>i\<close>, and \<open>sumCells\<close> the \<open>reduce\<close>. The
  argument \<open>totalCleared\<close> is a count of lines, a non-negative integer. Only the finite range
  of doubles is modelled: a value of magnitude \<open>2 ^ 1024\<close> or more, where a double is infinite,
  is rounded like any other.
\<close>

function ulp :: "int \<Rightarrow> int" where
  "ulp a = (if a < 2 ^ 53 then 1 else 2 * ulp (a div 2))"
  by pat_completeness auto
termination
  by (relation "measure nat") auto

declare ulp.simps [simp del]

definition nearestDouble :: "int \<Rightarrow> int" where
  "nearestDouble a =
     (let u = ulp a; q = a div u; r = a mod u
      in if 2 * r < u \<or> (2 * r = u \<and> even q) then q * u else (q + 1) * u)"

definition toDouble :: "int \<Rightarrow> int" where
  "toDouble n = (if n < 0 then - nearestDouble (- n) else nearestDouble n)"

definition windowEmpty :: "board \<Rightarrow> nat \<Rightarrow> nat \<Rightarrow> bool" where
  "windowEmpty board r c =
     (\<not> list_ex (\<lambda>rr. list_ex (\<lambda>cc. cellAt board (r + rr) (c + cc) = Some 1) [0..<3]) [0..<3])"

definition addWindows :: "board \<Rightarrow> int \<Rightarrow> int" where
  "addWindows board score =
     fold (\<lambda>rc s. if windowEmpty board (fst rc) (snd rc) then toDouble (s + 50) else s)
          (List.product [0..<6] [0..<6]) score"

definition streakStep :: "board \<Rightarrow> nat \<Rightarrow> nat \<Rightarrow> nat \<times> nat \<times> nat \<times> nat \<Rightarrow> nat \<times> nat \<times> nat \<times> nat" where
  "streakStep board i j s =
     (case s of (hMax, hCur, vMax, vCur) \<Rightarrow>
        (if cellAt board i j = Some 0 then hMax else max hMax hCur,
         if cellAt board i j = Some 0 then hCur + 1 else 0,
         if cellAt board j i = Some 0 then vMax else max vMax vCur,
         if cellAt board j i = Some 0 then vCur + 1 else 0))"

definition addStreak :: "board \<Rightarrow> nat \<Rightarrow> int \<Rightarrow> int" where
  "addStreak board i score =
     (case fold (streakStep board i) [0..<8] (0, 0, 0, 0) of (hMax, hCur, vMax, vCur) \<Rightarrow>
        let s1 = (if max hMax hCur \<ge> 5 then toDouble (score + 30) else score)
        in if max vMax vCur \<ge> 5 then toDouble (s1 + 30) else s1)"

definition sumCells :: "board \<Rightarrow> int" where
  "sumCells board = fold (\<lambda>b a. toDouble (a + int b)) (concat board) 0"

definition calculateStrategyScore :: "board \<Rightarrow> nat \<Rightarrow> error + int" where
  "calculateStrategyScore board totalCleared =
     (if length board < 8 then Inl TypeError
      else Inr (toDouble
             (fold (addStreak board) [0..<8]
                (addWindows board (toDouble (5000 + toDouble (int totalCleared * 200))))
              + toDouble (64 - sumCells board))))"

section \<open>The solver: \<open>getPermutations\<close>, \<open>solve\<close>, \<open>suggestMoves\<close>\<close>

text \<open>
  \<^verbatim>\<open>
  function getPermutations(arr) {
      if (arr.length <= 1) return [arr];
      let perms = [];
      for (let i = 0; i < arr.length; i++) {
          let rest = getPermutations(arr.slice(0, i).concat(arr.slice(i + 1)));
          rest.forEach(r => perms.push([arr[i], ...r]));
      }
      return perms;
  }
  \<close>
\<close>

function getPermutations :: "'a list \<Rightarrow> 'a list list" where
  "getPermutations arr =
     (if length arr \<le> 1 then [arr]
      else concat (map (\<lambda>i. map (\<lambda>r. arr ! i # r)
                                 (getPermutations (take i arr @ drop (i + 1) arr)))
                       [0..<length arr]))"
  by pat_completeness auto
termination
  by (relation "measure length") auto

declare getPermutations.simps [simp del]

text \<open>
  One entry of \<open>currentPath\<close>, and the two variables \<open>bestScore\<close> (initially \<open>-Infinity\<close>,
  here \<open>None\<close>) and \<open>bestSequence\<close> (initially \<open>null\<close>, here \<open>None\<close>) that the closure
  \<open>solve\<close> updates.
\<close>

record placementStep =
  pieceIdx :: nat
  row :: nat
  col :: nat
  cleared :: nat
  boardBefore :: board
  offsets :: "offset list"

record best =
  bestScore :: "int option"
  bestSequence :: "placementStep list option"

text \<open>
  \<^verbatim>\<open>
  const solve = (currentBoard, pieceIndices, currentPath, totalCleared) => {
      if (pieceIndices.length === 0) {
          const score = calculateStrategyScore(currentBoard, totalCleared);
          if (score > bestScore) { bestScore = score; bestSequence = [...currentPath]; }
          return;
      }
      const pIdx = pieceIndices[0];
      const pOffsets = validPieces[pIdx];
      for (let r = 0; r < 8; r++) {
          for (let c = 0; c < 8; c++) {
              if (canFit(currentBoard, pOffsets, r, c)) {
                  const boardBefore = currentBoard.map(row => [...row]);
                  const { board: nextBoard, cleared } = applyMove(currentBoard, pOffsets, r, c);
                  currentPath.push({ pieceIdx: pIdx, row: r, col: c, cleared, boardBefore,
                                     offsets: pOffsets });
                  solve(nextBoard, pieceIndices.slice(1), currentPath, totalCleared + cleared);
                  currentPath.pop();
              }
          }
      }
  };
  \<close>
  The two nested loops are the recursion of \<open>tryAnchors\<close> over the anchors in row-major
  order. An index outside \<open>validPieces\<close> makes \<open>pOffsets\<close> undefined, and \<open>canFit\<close> throws
  when it iterates over it.
\<close>

definition anchors :: "(nat \<times> nat) list" where
  "anchors = List.product [0..<8] [0..<8]"

definition better :: "int \<Rightarrow> int option \<Rightarrow> bool" where
  "better score bs = (case bs of None \<Rightarrow> True | Some s \<Rightarrow> score > s)"

fun solve :: "offset list list \<Rightarrow> board \<Rightarrow> nat list \<Rightarrow> placementStep list \<Rightarrow> nat \<Rightarrow> best \<Rightarrow> error + best"
  and tryAnchors :: "offset list list \<Rightarrow> board \<Rightarrow> nat \<Rightarrow> nat list \<Rightarrow> (nat \<times> nat) list
                      \<Rightarrow> placementStep list \<Rightarrow> nat \<Rightarrow> best \<Rightarrow> error + best" where
  "solve validPieces currentBoard [] currentPath totalCleared st =
     (case calculateStrategyScore currentBoard totalCleared of
        Inl e \<Rightarrow> Inl e
      | Inr score \<Rightarrow>
          Inr (if better score (bestScore st)
               then \<lparr>bestScore = Some score, bestSequence = Some currentPath\<rparr>
               else st))"
| "solve validPieces currentBoard (pIdx # rest) currentPath totalCleared st =
     (if pIdx \<ge> length validPieces then Inl TypeError
      else tryAnchors validPieces currentBoard pIdx rest anchors currentPath totalCleared st)"
| "tryAnchors validPieces currentBoard pIdx rest [] currentPath totalCleared st = Inr st"
| "tryAnchors validPieces currentBoard pIdx rest ((r, c) # others) currentPath totalCleared st =
     (case canFit currentBoard (validPieces ! pIdx) r c of
        Inl e \<Rightarrow> Inl e
      | Inr False \<Rightarrow>
          tryAnchors validPieces currentBoard pIdx rest others currentPath totalCleared st
      | Inr True \<Rightarrow>
          (case applyMove currentBoard (validPieces ! pIdx) r c of
             Inl e \<Rightarrow> Inl e
           | Inr (nextBoard, cl) \<Rightarrow>
               (case solve validPieces nextBoard rest
                       (currentPath @ [\<lparr>pieceIdx = pIdx, row = r, col = c, cleared = cl,
                                         boardBefore = currentBoard,
                                         offsets = validPieces ! pIdx\<rparr>])
                       (totalCleared + cl) st of
                  Inl e \<Rightarrow> Inl e
                | Inr st' \<Rightarrow>
                    tryAnchors validPieces currentBoard pIdx rest others currentPath
                      totalCleared st')))"

text \<open>
  \<^verbatim>\<open>
  function suggestMoves(board, pieces) {
      const validPieces = pieces.map(p => {
          let offsets = [];
          for (let r = 0; r < p.length; r++) {
              for (let c = 0; c < p[r].length; c++)
                  if (p[r][c] === 1) offsets.push({ dr: r, dc: c });
          }
          return offsets;
      }).filter(p => p.length > 0);
      if (validPieces.length === 0) return;
      let bestScore = -Infinity;
      let bestSequence = null;
      const permutations = getPermutations([...Array(validPieces.length).keys()]);
      const solve = ...
      permutations.forEach(pOrder => solve(board, pOrder, [], 0));
      renderSuggestions(bestSequence, validPieces.length);
  }

  function renderSuggestions(sequence, piecesCount) {
      ...
      if (sequence && sequence.length === piecesCount) {
          sequence.forEach((step, i) => { ... list.appendChild(item); });
      } else {
          list.innerHTML = `... <span>No solution found.</span> ...`;
      }
  }
  \<close>
  What the suggestions panel shows is a \<open>display\<close>. \<open>suggestMoves\<close> returns \<open>None\<close> when it
  returns before \<open>renderSuggestions\<close> is called, which leaves the panel as it was, and
  otherwise the final \<open>bestScore\<close> and \<open>bestSequence\<close> with what was rendered.
\<close>

definition offsetsOf :: "nat list list \<Rightarrow> offset list" where
  "offsetsOf p =
     concat (map (\<lambda>r. concat (map (\<lambda>c. if p ! r ! c = 1 then [\<lparr>dr = r, dc = c\<rparr>] else [])
                                    [0..<length (p ! r)]))
                 [0..<length p])"

definition validPiecesOf :: "nat list list list \<Rightarrow> offset list list" where
  "validPiecesOf pieces = filter (\<lambda>p. length p > 0) (map offsetsOf pieces)"

fun solveAll :: "offset list list \<Rightarrow> board \<Rightarrow> nat list list \<Rightarrow> best \<Rightarrow> error + best" where
  "solveAll validPieces board [] st = Inr st"
| "solveAll validPieces board (pOrder # permutations) st =
     (case solve validPieces board pOrder [] 0 st of
        Inl e \<Rightarrow> Inl e
      | Inr st' \<Rightarrow> solveAll validPieces board permutations st')"

datatype display = Steps "placementStep list" | NoSolutionFound

definition renderSuggestions :: "placementStep list option \<Rightarrow> nat \<Rightarrow> display" where
  "renderSuggestions sequence piecesCount =
     (case sequence of
        None \<Rightarrow> NoSolutionFound
      | Some steps \<Rightarrow> if length steps = piecesCount then Steps steps else NoSolutionFound)"

definition suggestMoves :: "board \<Rightarrow> nat list list list \<Rightarrow> error + (best \<times> display) option" where
  "suggestMoves board pieces =
     (let validPieces = validPiecesOf pieces in
      if length validPieces = 0 then Inr None
      else
        case solveAll validPieces board (getPermutations [0..<length validPieces])
               \<lparr>bestScore = None, bestSequence = None\<rparr> of
          Inl e \<Rightarrow> Inl e
        | Inr st \<Rightarrow> Inr (Some (st, renderSuggestions (bestSequence st) (length validPieces))))"

section \<open>The cell classifier: \<open>kMeansCluster\<close>\<close>

text \<open>
  \<^verbatim>\<open>
  function kMeansCluster(cells) {
      const points = cells.map(c => [c.color.r, c.color.g, c.color.b]);
      let sorted = [...cells].sort((a, b) => a.brightness - b.brightness);
      let cA = [sorted[0].color.r, sorted[0].color.g, sorted[0].color.b];
      let cB = [sorted[sorted.length - 1].color.r, sorted[sorted.length - 1].color.g,
                sorted[sorted.length - 1].color.b];
      let assign = new Array(cells.length).fill(0);
      for (let i = 0; i < 10; i++) {
          let changed = false;
          for (let j = 0; j < points.length; j++) {
              let dA = Math.hypot(points[j][0] - cA[0], points[j][1] - cA[1], points[j][2] - cA[2]);
              let dB = Math.hypot(points[j][0] - cB[0], points[j][1] - cB[1], points[j][2] - cB[2]);
              let next = dA < dB ? 0 : 1;
              if (assign[j] !== next) { assign[j] = next; changed = true; }
          }
          if (!changed) break;
          cA = avgPoint(points, assign, 0);
          cB = avgPoint(points, assign, 1);
      }
      return cells.map((c, i) => ({ ...c, groupId: assign[i] }));
  }

  function avgPoint(pts, assign, group) {
      let sum = [0, 0, 0], count = 0;
      pts.forEach((p, i) => { if (assign[i] === group) {
          sum[0] += p[0]; sum[1] += p[1]; sum[2] += p[2]; count++; } });
      return count ? sum.map(s => s / count) : [0, 0, 0];
  }
  \<close>
  A cell is the object \<open>analyzeGrid\<close> builds; its fields \<open>row\<close> and \<open>col\<close> are \<open>cellRow\<close> and
  \<open>cellCol\<close> here, and a color or a point is the triple of its three channels.

  The numbers are JavaScript doubles. A finite double is a real number and the model keeps
  the values as reals, but it does not compute with the operations of the reals: the
  record \<open>arith\<close> holds the four operations the classifier applies to doubles, \<open>fadd\<close> for
  \<open>+=\<close>, \<open>fsub\<close> for \<open>-\<close>, \<open>fdiv\<close> for \<open>/\<close> and \<open>fhypot\<close> for \<open>Math.hypot\<close>, whose result the
  language leaves to the engine. Every definition takes the arithmetic \<open>fl\<close> of the engine as
  a parameter, and nothing is assumed of it. So \<open>distance fl p cen\<close> is the double the code
  computes as \<open>dA\<close> or \<open>dB\<close>, which need not be the Euclidean distance. Values that are not
  finite are outside the model, and \<open>count\<close>, here \<open>cnt\<close>, is a natural number.

  The comparator of the sort subtracts two brightness values. The computed difference of
  two finite doubles is negative, zero or positive exactly as their difference is, so the
  sort orders the cells by brightness; it is stable, as \<open>Array.prototype.sort\<close> is. On an
  empty array \<open>sorted[0]\<close> is undefined and reading its color throws.

  \<open>assignStep\<close> is the body of the inner loop, \<open>assignRound\<close> the inner loop, and
  \<open>iterate n\<close> the outer loop with \<open>n\<close> rounds left. \<open>seedA\<close> and \<open>seedB\<close> are the first values
  of \<open>cA\<close> and \<open>cB\<close>. The result pairs every cell with its \<open>groupId\<close>. \<open>addMember\<close> is the
  callback of \<open>forEach\<close> in \<open>avgPoint\<close>, on a point and its label; the parameter \<open>group\<close> of
  \<open>avgPoint\<close> is \<open>grp\<close> here.
\<close>

type_synonym point = "real \<times> real \<times> real"

record cell =
  cellRow :: nat
  cellCol :: nat
  color :: point
  brightness :: real

record arith =
  fadd :: "real \<Rightarrow> real \<Rightarrow> real"
  fsub :: "real \<Rightarrow> real \<Rightarrow> real"
  fdiv :: "real \<Rightarrow> real \<Rightarrow> real"
  fhypot :: "real \<Rightarrow> real \<Rightarrow> real \<Rightarrow> real"

definition distance :: "arith \<Rightarrow> point \<Rightarrow> point \<Rightarrow> real" where
  "distance fl p cen =
     (case p of (p0, p1, p2) \<Rightarrow> case cen of (c0, c1, c2) \<Rightarrow>
        fhypot fl (fsub fl p0 c0) (fsub fl p1 c1) (fsub fl p2 c2))"

definition assignStep ::
  "arith \<Rightarrow> point list \<Rightarrow> point \<Rightarrow> point \<Rightarrow> nat \<Rightarrow> nat list \<times> bool \<Rightarrow> nat list \<times> bool" where
  "assignStep fl points cA cB j s =
     (case s of (assign, changed) \<Rightarrow>
        let dA = distance fl (points ! j) cA;
            dB = distance fl (points ! j) cB;
            next = (if dA < dB then 0 else 1)
        in if assign ! j \<noteq> next then (assign[j := next], True) else (assign, changed))"

definition assignRound ::
  "arith \<Rightarrow> point list \<Rightarrow> point \<Rightarrow> point \<Rightarrow> nat list \<Rightarrow> nat list \<times> bool" where
  "assignRound fl points cA cB assign =
     fold (assignStep fl points cA cB) [0..<length points] (assign, False)"

definition addMember :: "arith \<Rightarrow> nat \<Rightarrow> point \<times> nat \<Rightarrow> point \<times> nat \<Rightarrow> point \<times> nat" where
  "addMember fl grp pa acc =
     (case pa of ((p0, p1, p2), a) \<Rightarrow> case acc of ((s0, s1, s2), cnt) \<Rightarrow>
        if a = grp then ((fadd fl s0 p0, fadd fl s1 p1, fadd fl s2 p2), cnt + 1) else acc)"

definition avgPoint :: "arith \<Rightarrow> point list \<Rightarrow> nat list \<Rightarrow> nat \<Rightarrow> point" where
  "avgPoint fl pts assign grp =
     (case fold (addMember fl grp) (zip pts assign) ((0, 0, 0), 0) of ((s0, s1, s2), cnt) \<Rightarrow>
        if cnt = 0 then (0, 0, 0)
        else (fdiv fl s0 (real cnt), fdiv fl s1 (real cnt), fdiv fl s2 (real cnt)))"

fun iterate :: "arith \<Rightarrow> nat \<Rightarrow> point list \<Rightarrow> point \<Rightarrow> point \<Rightarrow> nat list \<Rightarrow> nat list" where
  "iterate fl 0 points cA cB assign = assign"
| "iterate fl (Suc n) points cA cB assign =
     (case assignRound fl points cA cB assign of (assign', changed) \<Rightarrow>
        if \<not> changed then assign'
        else iterate fl n points (avgPoint fl points assign' 0) (avgPoint fl points assign' 1)
               assign')"

definition seedA :: "cell list \<Rightarrow> point" where
  "seedA cells = color (sort_key brightness cells ! 0)"

definition seedB :: "cell list \<Rightarrow> point" where
  "seedB cells = color (sort_key brightness cells ! (length (sort_key brightness cells) - 1))"

definition kMeansCluster :: "arith \<Rightarrow> cell list \<Rightarrow> error + (cell \<times> nat) list" where
  "kMeansCluster fl cells =
     (if cells = [] then Inl TypeError
      else Inr (zip cells (iterate fl 10 (map color cells) (seedA cells) (seedB cells)
                             (replicate (length cells) 0))))"

section \<open>The piece shape inferencer: the grid of \<open>processFigureSlot\<close>\<close>

text \<open>
  \<^verbatim>\<open>
  let minX = w, minY = h, maxX = 0, maxY = 0;
  let foundAny = false;
  for (let j = 0; j < contours.size(); j++) {
      const c = contours.get(j);
      const rect = cv.boundingRect(c);
      if (cv.contourArea(c) > 40) {
          foundAny = true;
          minX = Math.min(minX, rect.x);  minY = Math.min(minY, rect.y);
          maxX = Math.max(maxX, rect.x + rect.width);
          maxY = Math.max(maxY, rect.y + rect.height);
      }
  }
  let pattern = [[1]];
  let finalRows = 1, finalCols = 1;
  let cellSize = 50;
  if (foundAny) {
      const figW = maxX - minX;
      const figH = maxY - minY;
      const dims = [];
      for (let j = 0; j < contours.size(); j++) {
          const rect = cv.boundingRect(contours.get(j));
          if (cv.contourArea(contours.get(j)) > 20) dims.push(rect.width, rect.height);
      }
      dims.sort((a, b) => a - b);
      let candidates = dims.filter(d => d > 12);
      let baseUnit = 50;
      if (candidates.length > 0) {
          let smallest = candidates[0];
          if (smallest > 80) baseUnit = smallest / Math.max(1, Math.round(smallest / 50));
          else baseUnit = smallest;
      }
      finalCols = Math.max(1, Math.min(5, Math.round(figW / baseUnit)));
      finalRows = Math.max(1, Math.min(5, Math.round(figH / baseUnit)));
      ...
  }
  \<close>
  A contour is what the code reads of it: its bounding rectangle (integers) and its area.
  \<open>Math.round\<close> rounds halves up, as \<open>round\<close> does. The sampling of the pattern cells from
  the thresholded image is not part of this model; \<open>finalCols\<close> and \<open>finalRows\<close> are what
  the function returns as \<open>cols\<close> and \<open>rows\<close>.
\<close>

record contour =
  rectX :: int
  rectY :: int
  rectWidth :: int
  rectHeight :: int
  contourArea :: real

definition foundAny :: "contour list \<Rightarrow> bool" where
  "foundAny contours = list_ex (\<lambda>c. contourArea c > 40) contours"

definition unionBox :: "contour list \<Rightarrow> int \<Rightarrow> int \<Rightarrow> int \<times> int \<times> int \<times> int" where
  "unionBox contours w h =
     fold (\<lambda>c s. case s of (minX, minY, maxX, maxY) \<Rightarrow>
             if contourArea c > 40
             then (min minX (rectX c), min minY (rectY c),
                   max maxX (rectX c + rectWidth c), max maxY (rectY c + rectHeight c))
             else (minX, minY, maxX, maxY))
          contours (w, h, 0, 0)"

definition figW :: "contour list \<Rightarrow> int \<Rightarrow> int \<Rightarrow> int" where
  "figW contours w h = (case unionBox contours w h of (minX, minY, maxX, maxY) \<Rightarrow> maxX - minX)"

definition figH :: "contour list \<Rightarrow> int \<Rightarrow> int \<Rightarrow> int" where
  "figH contours w h = (case unionBox contours w h of (minX, minY, maxX, maxY) \<Rightarrow> maxY - minY)"

definition dims :: "contour list \<Rightarrow> int list" where
  "dims contours =
     sort (concat (map (\<lambda>c. [rectWidth c, rectHeight c])
                       (filter (\<lambda>c. contourArea c > 20) contours)))"

definition candidates :: "contour list \<Rightarrow> int list" where
  "candidates contours = filter (\<lambda>d. d > 12) (dims contours)"

definition baseUnit :: "contour list \<Rightarrow> real" where
  "baseUnit contours =
     (case candidates contours of
        [] \<Rightarrow> 50
      | smallest # _ \<Rightarrow>
          if smallest > 80
          then real_of_int smallest / real_of_int (max 1 (round (real_of_int smallest / 50)))
          else real_of_int smallest)"

definition finalCols :: "contour list \<Rightarrow> int \<Rightarrow> int \<Rightarrow> int" where
  "finalCols contours w h =
     (if foundAny contours
      then max 1 (min 5 (round (real_of_int (figW contours w h) / baseUnit contours)))
      else 1)"

definition finalRows :: "contour list \<Rightarrow> int \<Rightarrow> int \<Rightarrow> int" where
  "finalRows contours w h =
     (if foundAny contours
      then max 1 (min 5 (round (real_of_int (figH contours w h) / baseUnit contours)))
      else 1)"

section \<open>Notions of the specification\<close>

text \<open>The cells a piece covers at an anchor are all on the board and all empty.\<close>

definition cellsFree :: "board \<Rightarrow> offset list \<Rightarrow> nat \<Rightarrow> nat \<Rightarrow> bool" where
  "cellsFree b offs r c =
     (\<forall>off \<in> set offs. r + dr off < 8 \<and> c + dc off < 8 \<and> b ! (r + dr off) ! (c + dc off) = 0)"

text \<open>
  The board after a placement as the specification describes it. \<open>placed b offs r c\<close> is
  the grid in which the cells the piece covers are occupied and every other cell is as in
  \<open>b\<close>. A row or column of a grid is fully occupied when its eight cells are 1.
  \<open>afterClear g\<close> resets every cell of a fully occupied row or column, and
  \<open>clearedLines g\<close> counts the fully occupied rows plus the fully occupied columns.
\<close>

definition placed :: "board \<Rightarrow> offset list \<Rightarrow> nat \<Rightarrow> nat \<Rightarrow> nat \<Rightarrow> nat \<Rightarrow> nat" where
  "placed b offs r c i j =
     (if list_ex (\<lambda>off. i = r + dr off \<and> j = c + dc off) offs then 1 else b ! i ! j)"

definition rowOccupied :: "(nat \<Rightarrow> nat \<Rightarrow> nat) \<Rightarrow> nat \<Rightarrow> bool" where
  "rowOccupied g i = list_all (\<lambda>j. g i j = 1) [0..<8]"

definition colOccupied :: "(nat \<Rightarrow> nat \<Rightarrow> nat) \<Rightarrow> nat \<Rightarrow> bool" where
  "colOccupied g j = list_all (\<lambda>i. g i j = 1) [0..<8]"

definition clearedLines :: "(nat \<Rightarrow> nat \<Rightarrow> nat) \<Rightarrow> nat" where
  "clearedLines g = length (filter (rowOccupied g) [0..<8]) + length (filter (colOccupied g) [0..<8])"

definition afterClear :: "(nat \<Rightarrow> nat \<Rightarrow> nat) \<Rightarrow> board" where
  "afterClear g =
     map (\<lambda>i. map (\<lambda>j. if rowOccupied g i \<or> colOccupied g j then 0 else g i j) [0..<8]) [0..<8]"

text \<open>
  The score as the specification describes it. A run is a contiguous block of a line (a
  \<open>sublist\<close>), so it does not wrap around; \<open>longestEmptyRun\<close> is the greatest length of a
  block of empty cells. \<open>emptyWindows\<close> counts the 36 windows of 3 by 3 cells, named by their
  top-left cell, that hold no occupied cell.
\<close>

definition emptyRun :: "nat list \<Rightarrow> bool" where
  "emptyRun ys = list_all (\<lambda>v. v = 0) ys"

definition longestEmptyRun :: "nat list \<Rightarrow> nat" where
  "longestEmptyRun xs = Max (set (map length (filter emptyRun (sublists xs))))"

definition boardCol :: "board \<Rightarrow> nat \<Rightarrow> nat list" where
  "boardCol b j = map (\<lambda>i. b ! i ! j) [0..<8]"

definition windowFree :: "board \<Rightarrow> nat \<Rightarrow> nat \<Rightarrow> bool" where
  "windowFree b r c = list_all (\<lambda>rr. list_all (\<lambda>cc. b ! (r + rr) ! (c + cc) = 0) [0..<3]) [0..<3]"

definition emptyWindows :: "board \<Rightarrow> nat" where
  "emptyWindows b = length (filter (\<lambda>(r, c). windowFree b r c) (List.product [0..<6] [0..<6]))"

definition rowsWithStreak :: "board \<Rightarrow> nat" where
  "rowsWithStreak b = length (filter (\<lambda>i. longestEmptyRun (b ! i) \<ge> 5) [0..<8])"

definition colsWithStreak :: "board \<Rightarrow> nat" where
  "colsWithStreak b = length (filter (\<lambda>j. longestEmptyRun (boardCol b j) \<ge> 5) [0..<8])"

definition occupiedCells :: "board \<Rightarrow> nat" where
  "occupiedCells b = length (filter (\<lambda>v. v = 1) (concat b))"

text \<open>
  A complete sequence of placements as the specification describes it: each step names a
  piece and an anchor, the anchor must be legal on the current board, and \<open>applyMove\<close> gives
  the next board and adds to the cleared count. The result is the final board and the
  cumulative cleared count, or \<open>None\<close> when some step is not legal.
\<close>

fun playSequence :: "offset list list \<Rightarrow> board \<Rightarrow> (nat \<times> nat \<times> nat) list \<Rightarrow> nat \<Rightarrow> (board \<times> nat) option" where
  "playSequence vps b [] t = Some (b, t)"
| "playSequence vps b ((p, r, c) # steps) t =
     (if p < length vps \<and> canFit b (vps ! p) r c = Inr True
      then (case applyMove b (vps ! p) r c of
              Inl e \<Rightarrow> None
            | Inr (nb, cl) \<Rightarrow> playSequence vps nb steps (t + cl))
      else None)"

text \<open>What the suggestions panel shows after a call of \<open>suggestMoves\<close>: \<open>None\<close> when nothing
  was rendered.\<close>

definition panel :: "error + (best \<times> display) option \<Rightarrow> display option" where
  "panel res = (case res of Inr (Some (st, d)) \<Rightarrow> Some d | _ \<Rightarrow> None)"

section \<open>Auxiliary definitions for the proofs\<close>

text \<open>One scan of the streak loop over a single line of cells, used to split the loop of
  \<open>streakStep\<close>, which scans a row and a column together.\<close>

definition runStep :: "bool \<Rightarrow> nat \<times> nat \<Rightarrow> nat \<times> nat" where
  "runStep e s = (case s of (mx, cur) \<Rightarrow> (if e then mx else max mx cur, if e then cur + 1 else 0))"

text \<open>At an anchor the piece does not fit, or it fits and the completed sequence scores no
  more than \<open>bs\<close>; at an anchor the piece does not fit.\<close>

definition neverImproves :: "offset list list \<Rightarrow> board \<Rightarrow> nat \<Rightarrow> nat \<Rightarrow> int \<Rightarrow> nat \<times> nat \<Rightarrow> bool" where
  "neverImproves vps cb p t bs rc =
     (case canFit cb (vps ! p) (fst rc) (snd rc) of
        Inl e \<Rightarrow> False
      | Inr False \<Rightarrow> True
      | Inr True \<Rightarrow>
          (case applyMove cb (vps ! p) (fst rc) (snd rc) of
             Inl e \<Rightarrow> False
           | Inr res \<Rightarrow>
               (case calculateStrategyScore (fst res) (t + snd res) of
                  Inl e \<Rightarrow> False
                | Inr s \<Rightarrow> s \<le> bs)))"

definition neverFits :: "offset list list \<Rightarrow> board \<Rightarrow> nat \<Rightarrow> nat \<times> nat \<Rightarrow> bool" where
  "neverFits vps cb p rc = (canFit cb (vps ! p) (fst rc) (snd rc) = Inr False)"

text \<open>The best score found so far is at least \<open>s\<close>.\<close>

definition reaches :: "best \<Rightarrow> int \<Rightarrow> bool" where
  "reaches st s = (case bestScore st of None \<Rightarrow> False | Some bs \<Rightarrow> s \<le> bs)"

section \<open>Concrete boards, pieces, samples and blobs\<close>

definition emptyBoard :: board where
  "emptyBoard = replicate 8 (replicate 8 0)"

definition fullBoard :: board where
  "fullBoard = replicate 8 (replicate 8 1)"

definition cornerGapBoard :: board where
  "cornerGapBoard =
     (0 # replicate 7 1) # replicate 4 (1 # replicate 7 0)
       @ [1 # replicate 6 0 @ [1]] @ replicate 2 (1 # replicate 7 0)"

definition cornerBoard :: board where
  "cornerBoard = (1 # replicate 7 0) # replicate 7 (replicate 8 0)"

definition singleCell :: "offset list" where
  "singleCell = [\<lparr>dr = 0, dc = 0\<rparr>]"

definition domino :: "offset list" where
  "domino = [\<lparr>dr = 0, dc = 0\<rparr>, \<lparr>dr = 0, dc = 1\<rparr>]"

definition firstStep :: placementStep where
  "firstStep = \<lparr>pieceIdx = 0, row = 0, col = 0, cleared = 0, boardBefore = emptyBoard,
                 offsets = singleCell\<rparr>"

text \<open>Two pieces, a complete sequence that places the second piece and then the first on
  \<open>cornerGapBoard\<close>, and the board this sequence ends with.\<close>

definition twoPieces :: "nat list list list" where
  "twoPieces = [[[1]], [[1, 1]]]"

definition twoSteps :: "(nat \<times> nat \<times> nat) list" where
  "twoSteps = [(1, 5, 5), (0, 0, 0)]"

definition twoStepsBoard :: board where
  "twoStepsBoard =
     replicate 5 (replicate 8 0) @ [replicate 5 0 @ replicate 3 1] @ replicate 2 (replicate 8 0)"

text \<open>A 64-cell input: cell 0 is grey, cells 1 to 32 are black, cells 33 to 63 are white.\<close>

definition shade :: "nat \<Rightarrow> real" where
  "shade i = (if i = 0 then 100 else if i \<le> 32 then 0 else 200)"

definition tieCells :: "cell list" where
  "tieCells =
     map (\<lambda>i. \<lparr>cellRow = i div 8, cellCol = i mod 8, color = (shade i, shade i, shade i),
                 brightness = (shade i * 299 + shade i * 587 + shade i * 114) / 1000\<rparr>)
         [0..<64]"

text \<open>The same samples with the rows of the grid in the opposite order of numbering.\<close>

definition mirroredCells :: "cell list" where
  "mirroredCells = map (\<lambda>c. c\<lparr>cellRow := 7 - cellRow c\<rparr>) tieCells"

text \<open>
  One arithmetic, for the sample inputs: the operations of the real numbers, which never
  round. The operations \<open>+\<close>, \<open>-\<close> and \<open>/\<close> of doubles return the exact result whenever it is a
  double, so there they agree with this arithmetic; \<open>Math.hypot\<close> returns an approximation
  of the value of \<open>fhypot\<close> here.
\<close>

definition exactArith :: arith where
  "exactArith =
     \<lparr>fadd = (\<lambda>u v. u + v), fsub = (\<lambda>u v. u - v), fdiv = (\<lambda>u v. u / v),
      fhypot = (\<lambda>u v w. sqrt (u * u + v * v + w * w))\<rparr>"

text \<open>Three blobs of one slot that is 200 pixels wide and 150 high.\<close>

definition smallBlobs :: "contour list" where
  "smallBlobs =
     [\<lparr>rectX = 10, rectY = 20, rectWidth = 10, rectHeight = 10, contourArea = 81\<rparr>,
      \<lparr>rectX = 100, rectY = 25, rectWidth = 12, rectHeight = 9, contourArea = 30\<rparr>,
      \<lparr>rectX = 150, rectY = 22, rectWidth = 11, rectHeight = 12, contourArea = 60\<rparr>]"

section \<open>Properties of \<open>canFit\<close>\<close>

lemma is8x8_row: "is8x8 b \<Longrightarrow> i < 8 \<Longrightarrow> length (b ! i) = 8"
  by (simp add: is8x8_def)

lemma binary_cell:
  "binary b \<Longrightarrow> i < length b \<Longrightarrow> j < length (b ! i) \<Longrightarrow> b ! i ! j = 0 \<or> b ! i ! j = 1"
  unfolding binary_def by (meson nth_mem)

lemma canFit_8x8:
  assumes "is8x8 b"
  shows "canFit b offs r c =
    Inr (\<forall>off \<in> set offs. r + dr off < 8 \<and> c + dc off < 8 \<and> b ! (r + dr off) ! (c + dc off) \<noteq> 1)"
proof (induction offs)
  case Nil
  show ?case by simp
next
  case (Cons off offs)
  have len: "length b = 8" using assms by (simp add: is8x8_def)
  show ?case
  proof (cases "r + dr off < 8 \<and> c + dc off < 8")
    case True
    then have "cellAt b (r + dr off) (c + dc off) = Some (b ! (r + dr off) ! (c + dc off))"
      using assms by (simp add: cellAt_def is8x8_row)
    with True len Cons.IH show ?thesis by (auto simp: Let_def)
  next
    case False
    then show ?thesis by (auto simp: Let_def)
  qed
qed

text \<open>
  C4. On an 8 by 8 board of zeros and ones, at every anchor, \<open>canFit\<close> returns true
  exactly when every offset cell lies on the board and is empty.
\<close>

theorem canFit_iff_cellsFree:
  assumes "is8x8 b" and "binary b"
  shows "canFit b offs r c = Inr (cellsFree b offs r c)"
proof -
  have "b ! i ! j \<noteq> 1 \<longleftrightarrow> b ! i ! j = 0" if "i < 8" "j < 8" for i j
    using binary_cell [OF assms(2), of i j] assms(1) that by (auto simp: is8x8_def)
  then have "(\<forall>off \<in> set offs. r + dr off < 8 \<and> c + dc off < 8 \<and> b ! (r + dr off) ! (c + dc off) \<noteq> 1)
      = cellsFree b offs r c"
    unfolding cellsFree_def by blast
  then show ?thesis using canFit_8x8 [OF assms(1)] by simp
qed

theorem canFit_iff_cellsFree_witness:
  "is8x8 cornerGapBoard \<and> binary cornerGapBoard
   \<and> canFit cornerGapBoard domino 5 6 = Inr (cellsFree cornerGapBoard domino 5 6)
   \<and> \<not> cellsFree cornerGapBoard domino 5 6
   \<and> canFit cornerGapBoard domino 5 5 = Inr (cellsFree cornerGapBoard domino 5 5)
   \<and> cellsFree cornerGapBoard domino 5 5"
proof -
  have w: "is8x8 cornerGapBoard" "binary cornerGapBoard"
    by code_simp+
  have "cellsFree cornerGapBoard domino 5 5" "\<not> cellsFree cornerGapBoard domino 5 6"
    by code_simp+
  then show ?thesis
    using w canFit_iff_cellsFree [OF w, of domino 5 6] canFit_iff_cellsFree [OF w, of domino 5 5]
    by simp
qed

section \<open>Properties of \<open>applyMove\<close>\<close>

lemma is8x8_length: "is8x8 b \<Longrightarrow> length b = 8"
  by (simp add: is8x8_def)

lemma is8x8_update: "is8x8 b \<Longrightarrow> length xs = 8 \<Longrightarrow> is8x8 (b[i := xs])"
  unfolding is8x8_def using set_update_subset_insert [of b i xs] by auto

lemma setCell_8x8:
  assumes "is8x8 b" "i < 8" "j < 8"
  shows "setCell b i j v = Inr (b[i := (b ! i)[j := v]])"
  using assms by (simp add: setCell_def is8x8_length is8x8_row)

lemma is8x8_set: "is8x8 b \<Longrightarrow> i < 8 \<Longrightarrow> is8x8 (b[i := (b ! i)[j := v]])"
  by (simp add: is8x8_update is8x8_row)

lemma nth_set:
  assumes "is8x8 b" "i' < 8" "j' < 8"
  shows "b[i := (b ! i)[j := v]] ! i' ! j' = (if i' = i \<and> j' = j then v else b ! i' ! j')"
proof (cases "i' = i")
  case True
  then show ?thesis using assms by (simp add: is8x8_length is8x8_row nth_list_update)
next
  case False
  then show ?thesis using assms by (simp add: is8x8_length)
qed

lemma markCells_8x8:
  assumes "is8x8 b" "\<forall>off \<in> set offs. r + dr off < 8 \<and> c + dc off < 8"
  shows "\<exists>m. markCells b offs r c = Inr m \<and> is8x8 m
           \<and> (\<forall>i<8. \<forall>j<8. m ! i ! j = placed b offs r c i j)"
  using assms
proof (induction offs arbitrary: b)
  case Nil
  then show ?case by (simp add: placed_def)
next
  case (Cons off offs)
  let ?b = "b[r + dr off := (b ! (r + dr off))[c + dc off := 1]]"
  have inb: "r + dr off < 8" "c + dc off < 8" using Cons.prems(2) by auto
  have s: "setCell b (r + dr off) (c + dc off) 1 = Inr ?b"
    using setCell_8x8 [OF Cons.prems(1) inb] .
  have w: "is8x8 ?b" using is8x8_set [OF Cons.prems(1) inb(1)] .
  from Cons.IH [OF w] Cons.prems(2)
  obtain m where m: "markCells ?b offs r c = Inr m" "is8x8 m"
    "\<forall>i<8. \<forall>j<8. m ! i ! j = placed ?b offs r c i j" by auto
  have "placed ?b offs r c i j = placed b (off # offs) r c i j" if "i < 8" "j < 8" for i j
    using nth_set [OF Cons.prems(1) that] by (auto simp: placed_def)
  with m s show ?case by simp
qed

lemma fillRows_8x8:
  assumes "is8x8 m" "set rows \<subseteq> {..<8}"
  shows "is8x8 (fold fillRow rows m)
       \<and> (\<forall>i<8. \<forall>j<8. fold fillRow rows m ! i ! j = (if i \<in> set rows then 0 else m ! i ! j))"
  using assms
proof (induction rows arbitrary: m)
  case Nil
  then show ?case by simp
next
  case (Cons ri rows)
  have ri: "ri < 8" using Cons.prems(2) by simp
  have w: "is8x8 (fillRow ri m)"
    using Cons.prems(1) ri by (simp add: fillRow_def is8x8_update is8x8_row)
  have c: "fillRow ri m ! i ! j = (if i = ri then 0 else m ! i ! j)" if "i < 8" "j < 8" for i j
    using Cons.prems(1) ri that by (simp add: fillRow_def is8x8_length is8x8_row nth_list_update)
  from Cons.IH [OF w] Cons.prems(2) c show ?case by auto
qed

lemma clearCol_8x8:
  assumes "is8x8 nb" "ci < 8" "set ris \<subseteq> {..<8}"
  shows "\<exists>nb'. clearCol ci ris nb = Inr nb' \<and> is8x8 nb'
           \<and> (\<forall>i<8. \<forall>j<8. nb' ! i ! j = (if j = ci \<and> i \<in> set ris then 0 else nb ! i ! j))"
  using assms
proof (induction ris arbitrary: nb)
  case Nil
  then show ?case by simp
next
  case (Cons ri ris)
  let ?b = "nb[ri := (nb ! ri)[ci := 0]]"
  have ri: "ri < 8" using Cons.prems(3) by simp
  have s: "setCell nb ri ci 0 = Inr ?b" using setCell_8x8 [OF Cons.prems(1) ri Cons.prems(2)] .
  have w: "is8x8 ?b" using is8x8_set [OF Cons.prems(1) ri] .
  from Cons.IH [OF w Cons.prems(2)] Cons.prems(3)
  obtain nb' where n: "clearCol ci ris ?b = Inr nb'" "is8x8 nb'"
    "\<forall>i<8. \<forall>j<8. nb' ! i ! j = (if j = ci \<and> i \<in> set ris then 0 else ?b ! i ! j)" by auto
  have "?b ! i ! j = (if i = ri \<and> j = ci then 0 else nb ! i ! j)" if "i < 8" "j < 8" for i j
    using nth_set [OF Cons.prems(1) that] .
  with n s show ?case by auto
qed

lemma clearCols_8x8:
  assumes "is8x8 nb" "set cols \<subseteq> {..<8}"
  shows "\<exists>nb'. clearCols cols nb = Inr nb' \<and> is8x8 nb'
           \<and> (\<forall>i<8. \<forall>j<8. nb' ! i ! j = (if j \<in> set cols then 0 else nb ! i ! j))"
  using assms
proof (induction cols arbitrary: nb)
  case Nil
  then show ?case by simp
next
  case (Cons ci cols)
  have ci: "ci < 8" using Cons.prems(2) by simp
  have "set [0..<8] \<subseteq> {..<(8::nat)}" by auto
  from clearCol_8x8 [OF Cons.prems(1) ci this]
  obtain b1 where b1: "clearCol ci [0..<8] nb = Inr b1" "is8x8 b1"
    "\<forall>i<8. \<forall>j<8. b1 ! i ! j = (if j = ci then 0 else nb ! i ! j)" by auto
  from Cons.IH [OF b1(2)] Cons.prems(2)
  obtain nb' where n: "clearCols cols b1 = Inr nb'" "is8x8 nb'"
    "\<forall>i<8. \<forall>j<8. nb' ! i ! j = (if j \<in> set cols then 0 else b1 ! i ! j)" by auto
  with b1 show ?case by auto
qed

lemma is8x8_eqI:
  assumes "is8x8 a" "is8x8 b" "\<And>i j. i < 8 \<Longrightarrow> j < 8 \<Longrightarrow> a ! i ! j = b ! i ! j"
  shows "a = b"
proof (rule nth_equalityI)
  show "length a = length b" using assms by (simp add: is8x8_length)
  fix i assume "i < length a"
  then have i: "i < 8" using assms(1) by (simp add: is8x8_length)
  show "a ! i = b ! i"
    by (rule nth_equalityI) (use assms i in \<open>simp_all add: is8x8_row\<close>)
qed

lemma is8x8_afterClear: "is8x8 (afterClear g)"
  by (auto simp: is8x8_def afterClear_def)

lemma nth_afterClear:
  "i < 8 \<Longrightarrow> j < 8 \<Longrightarrow>
   afterClear g ! i ! j = (if rowOccupied g i \<or> colOccupied g j then 0 else g i j)"
  by (simp add: afterClear_def)

lemma rowFull_8x8:
  assumes "is8x8 m" "i < 8" "\<forall>i<8. \<forall>j<8. m ! i ! j = g i j"
  shows "rowFull m i = rowOccupied g i"
  using assms by (simp add: rowFull_def rowOccupied_def list_all_length is8x8_row)

lemma colFull_8x8:
  assumes "is8x8 m" "j < 8" "\<forall>i<8. \<forall>j<8. m ! i ! j = g i j" "\<forall>i<8. \<forall>j<8. g i j = 0 \<or> g i j = 1"
  shows "colFull m j = colOccupied g j"
proof -
  have "cellAt m i j = Some (g i j)" if "i < 8" for i
    using assms that by (simp add: cellAt_def is8x8_row)
  then have "colFull m j = (\<forall>i<8. g i j \<noteq> 0)"
    by (auto simp: colFull_def list_ex_iff)
  also have "\<dots> = colOccupied g j"
  proof -
    have "g i j \<noteq> 0 \<longleftrightarrow> g i j = 1" if "i < 8" for i
      using assms(2,4) that by force
    then show ?thesis by (auto simp: colOccupied_def list_all_iff)
  qed
  finally show ?thesis .
qed

lemma canFit_bounds:
  assumes "is8x8 b" "canFit b offs r c = Inr True"
  shows "\<forall>off \<in> set offs. r + dr off < 8 \<and> c + dc off < 8"
  using canFit_8x8 [OF assms(1), of offs r c] assms(2) by auto

lemma placed_binary:
  assumes "is8x8 b" "binary b" "i < 8" "j < 8"
  shows "placed b offs r c i j = 0 \<or> placed b offs r c i j = 1"
  using binary_cell [OF assms(2), of i j] assms by (auto simp: placed_def is8x8_length is8x8_row)

text \<open>
  C1. On an 8 by 8 board of zeros and ones, at an anchor where \<open>canFit\<close> holds,
  \<open>applyMove\<close> returns the board in which the offset cells were set to occupied and then
  every fully occupied row and column was reset to empty, and it returns as \<open>cleared\<close> the
  number of full rows plus the number of full columns. A cell where a cleared row meets a
  cleared column ends at 0 and is counted once with the rows and once with the columns.
\<close>

theorem applyMove_fills_then_clears:
  assumes "is8x8 b" and "binary b" and "canFit b offs r c = Inr True"
  shows "applyMove b offs r c
       = Inr (afterClear (placed b offs r c), clearedLines (placed b offs r c))"
proof -
  let ?g = "placed b offs r c"
  from markCells_8x8 [OF assms(1) canFit_bounds [OF assms(1,3)]]
  obtain m where m: "markCells b offs r c = Inr m" "is8x8 m" "\<forall>i<8. \<forall>j<8. m ! i ! j = ?g i j"
    by auto
  have bin: "\<forall>i<8. \<forall>j<8. ?g i j = 0 \<or> ?g i j = 1"
    using placed_binary [OF assms(1,2)] by blast
  have rows: "filter (rowFull m) [0..<8] = filter (rowOccupied ?g) [0..<8]"
    by (rule filter_cong) (use rowFull_8x8 [OF m(2) _ m(3)] in auto)
  have cols: "filter (colFull m) [0..<8] = filter (colOccupied ?g) [0..<8]"
    by (rule filter_cong) (use colFull_8x8 [OF m(2) _ m(3) bin] in auto)
  let ?rows = "filter (rowOccupied ?g) [0..<8]" and ?cols = "filter (colOccupied ?g) [0..<8]"
  have f: "is8x8 (fold fillRow ?rows m)"
     "\<forall>i<8. \<forall>j<8. fold fillRow ?rows m ! i ! j = (if i \<in> set ?rows then 0 else m ! i ! j)"
  proof -
    have "set ?rows \<subseteq> {..<8}" by auto
    from fillRows_8x8 [OF m(2) this]
    show "is8x8 (fold fillRow ?rows m)"
     "\<forall>i<8. \<forall>j<8. fold fillRow ?rows m ! i ! j = (if i \<in> set ?rows then 0 else m ! i ! j)"
      by blast+
  qed
  have "set ?cols \<subseteq> {..<8}" by auto
  from clearCols_8x8 [OF f(1) this]
  obtain nb where nb: "clearCols ?cols (fold fillRow ?rows m) = Inr nb" "is8x8 nb"
    "\<forall>i<8. \<forall>j<8. nb ! i ! j = (if j \<in> set ?cols then 0 else fold fillRow ?rows m ! i ! j)"
    by auto
  have "nb = afterClear ?g"
  proof (rule is8x8_eqI [OF nb(2) is8x8_afterClear])
    fix i j :: nat assume ij: "i < 8" "j < 8"
    then show "nb ! i ! j = afterClear ?g ! i ! j"
      using nb(3) f(2) m(3) by (simp add: nth_afterClear)
  qed
  with m nb(1) rows cols show ?thesis
    by (simp add: applyMove_def is8x8_length clearedLines_def)
qed

theorem applyMove_fills_then_clears_witness:
  "is8x8 cornerGapBoard \<and> binary cornerGapBoard
   \<and> canFit cornerGapBoard singleCell 0 0 = Inr True
   \<and> applyMove cornerGapBoard singleCell 0 0
       = Inr (afterClear (placed cornerGapBoard singleCell 0 0),
              clearedLines (placed cornerGapBoard singleCell 0 0))
   \<and> clearedLines (placed cornerGapBoard singleCell 0 0) = 2
   \<and> afterClear (placed cornerGapBoard singleCell 0 0) ! 0 ! 0 = 0
   \<and> afterClear (placed cornerGapBoard singleCell 0 0) ! 5 ! 7 = 1
   \<and> rowOccupied (placed cornerGapBoard singleCell 0 0) 0
   \<and> colOccupied (placed cornerGapBoard singleCell 0 0) 0"
proof -
  have w: "is8x8 cornerGapBoard" "binary cornerGapBoard"
    "canFit cornerGapBoard singleCell 0 0 = Inr True"
    by code_simp+
  have "clearedLines (placed cornerGapBoard singleCell 0 0) = 2"
    "afterClear (placed cornerGapBoard singleCell 0 0) ! 0 ! 0 = 0"
    "afterClear (placed cornerGapBoard singleCell 0 0) ! 5 ! 7 = 1"
    "rowOccupied (placed cornerGapBoard singleCell 0 0) 0"
    "colOccupied (placed cornerGapBoard singleCell 0 0) 0"
    by code_simp+
  then show ?thesis using w applyMove_fills_then_clears [OF w] by simp
qed

section \<open>Properties of \<open>calculateStrategyScore\<close>\<close>


lemma runStep_pair:
  "runStep e (mx, cur) = (if e then mx else max mx cur, if e then cur + 1 else 0)"
  by (simp add: runStep_def)

lemma longestEmptyRun_alt:
  "longestEmptyRun xs = Max (length ` {ys. sublist ys xs \<and> emptyRun ys})"
proof -
  have "set (map length (filter emptyRun (sublists xs))) = length ` {ys. sublist ys xs \<and> emptyRun ys}"
    by auto
  then show ?thesis by (simp add: longestEmptyRun_def)
qed

lemma finite_runs: "finite (length ` {ys. sublist ys xs \<and> emptyRun ys})"
proof -
  have "{ys. sublist ys xs \<and> emptyRun ys} \<subseteq> set (sublists xs)" by auto
  then show ?thesis using finite_subset by blast
qed

lemma run_le: "sublist ys xs \<Longrightarrow> emptyRun ys \<Longrightarrow> length ys \<le> longestEmptyRun xs"
  unfolding longestEmptyRun_alt by (rule Max_ge [OF finite_runs]) blast

lemma run_bound:
  assumes "\<And>ys. sublist ys xs \<Longrightarrow> emptyRun ys \<Longrightarrow> length ys \<le> n"
  shows "longestEmptyRun xs \<le> n"
proof -
  have ne: "length ` {ys. sublist ys xs \<and> emptyRun ys} \<noteq> {}"
    using sublist_Nil_left [of xs] by (auto simp: emptyRun_def)
  show ?thesis
    unfolding longestEmptyRun_alt using assms by (subst Max_le_iff [OF finite_runs ne]) auto
qed

lemma emptyRun_replicate: "emptyRun (replicate n 0)"
  by (simp add: emptyRun_def list_all_iff)

lemma longestEmptyRun_replicate: "longestEmptyRun (replicate n 0) = n"
proof (rule antisym)
  show "longestEmptyRun (replicate n 0) \<le> n"
    by (rule run_bound) (use sublist_length_le in fastforce)
  show "n \<le> longestEmptyRun (replicate n 0)"
    using run_le [of "replicate n 0" "replicate n 0"] emptyRun_replicate by simp
qed

lemma emptyRun_prefix_Cons:
  assumes "emptyRun ys" "prefix ys (x # xs)" "x \<noteq> 0"
  shows "ys = []"
  using assms by (cases ys) (auto simp: emptyRun_def)

lemma longestEmptyRun_block:
  assumes "x \<noteq> 0"
  shows "longestEmptyRun (replicate n 0 @ x # xs) = max n (longestEmptyRun xs)"
proof (rule antisym)
  show "longestEmptyRun (replicate n 0 @ x # xs) \<le> max n (longestEmptyRun xs)"
  proof (rule run_bound)
    fix ys assume s: "sublist ys (replicate n 0 @ x # xs)" and e: "emptyRun ys"
    from s consider "sublist ys (replicate n 0)" | "sublist ys (x # xs)"
      | ys1 ys2 where "ys = ys1 @ ys2" "suffix ys1 (replicate n 0)" "prefix ys2 (x # xs)"
      unfolding sublist_append by blast
    then show "length ys \<le> max n (longestEmptyRun xs)"
    proof cases
      case 1
      then show ?thesis using sublist_length_le by fastforce
    next
      case 2
      then consider "prefix ys (x # xs)" | "sublist ys xs" unfolding sublist_Cons_right by blast
      then show ?thesis
      proof cases
        case 1
        then show ?thesis using emptyRun_prefix_Cons [OF e 1 assms] by simp
      next
        case 2
        then show ?thesis using run_le [OF _ e] by (simp add: max.coboundedI2)
      qed
    next
      case 3
      have "emptyRun ys2" using e 3(1) by (simp add: emptyRun_def)
      then have "ys2 = []" using emptyRun_prefix_Cons 3(3) assms by blast
      then have "length ys \<le> n" using 3(1,2) suffix_length_le by fastforce
      then show ?thesis by simp
    qed
  qed
  have "n \<le> longestEmptyRun (replicate n 0 @ x # xs)"
    using run_le [of "replicate n 0" "replicate n 0 @ x # xs"] emptyRun_replicate by simp
  moreover have "longestEmptyRun xs \<le> longestEmptyRun (replicate n 0 @ x # xs)"
  proof (rule run_bound)
    fix ys assume "sublist ys xs" "emptyRun ys"
    moreover from this have "sublist ys (replicate n 0 @ x # xs)"
      by (metis sublist_Cons_right sublist_append)
    ultimately show "length ys \<le> longestEmptyRun (replicate n 0 @ x # xs)"
      using run_le by blast
  qed
  ultimately show "max n (longestEmptyRun xs) \<le> longestEmptyRun (replicate n 0 @ x # xs)"
    by simp
qed

lemma fold_runStep:
  "fold runStep (map (\<lambda>v. v = 0) xs) (mx, cur) = (mx', cur')
   \<Longrightarrow> max mx' cur' = max mx (longestEmptyRun (replicate cur 0 @ xs))"
proof (induction xs arbitrary: mx cur)
  case Nil
  then show ?case by (simp add: longestEmptyRun_replicate)
next
  case (Cons x xs)
  show ?case
  proof (cases "x = 0")
    case True
    then have "fold runStep (map (\<lambda>v. v = 0) xs) (mx, cur + 1) = (mx', cur')"
      using Cons.prems by (simp add: runStep_pair)
    from Cons.IH [OF this] True show ?thesis
      by (simp add: replicate_app_Cons_same)
  next
    case False
    then have "fold runStep (map (\<lambda>v. v = 0) xs) (max mx cur, 0) = (mx', cur')"
      using Cons.prems by (simp add: runStep_pair)
    from Cons.IH [OF this] False show ?thesis
      by (simp add: longestEmptyRun_block max.assoc)
  qed
qed

lemma fold_streakStep:
  "fold (streakStep b i) js (hMax, hCur, vMax, vCur) =
     (fst (fold runStep (map (\<lambda>j. cellAt b i j = Some 0) js) (hMax, hCur)),
      snd (fold runStep (map (\<lambda>j. cellAt b i j = Some 0) js) (hMax, hCur)),
      fst (fold runStep (map (\<lambda>j. cellAt b j i = Some 0) js) (vMax, vCur)),
      snd (fold runStep (map (\<lambda>j. cellAt b j i = Some 0) js) (vMax, vCur)))"
  by (induction js arbitrary: hMax hCur vMax vCur) (simp_all add: streakStep_def runStep_pair)

lemma row_cells:
  assumes "is8x8 b" "i < 8"
  shows "map (\<lambda>j. cellAt b i j = Some 0) [0..<8] = map (\<lambda>v. v = 0) (b ! i)"
  by (rule nth_equalityI) (use is8x8_row [OF assms] in \<open>simp_all add: cellAt_def\<close>)

lemma col_cells:
  assumes "is8x8 b" "i < 8"
  shows "map (\<lambda>j. cellAt b j i = Some 0) [0..<8] = map (\<lambda>v. v = 0) (boardCol b i)"
  using assms by (simp add: boardCol_def cellAt_def is8x8_row)

lemma ulp_small: "a < 2 ^ 53 \<Longrightarrow> ulp a = 1"
  by (subst ulp.simps) simp

lemma toDouble_exact:
  assumes "- (2 ^ 53) < n" "n < 2 ^ 53"
  shows "toDouble n = n"
proof (cases "n < 0")
  case True
  then have "ulp (- n) = 1" using assms(1) by (intro ulp_small) simp
  then show ?thesis using True by (simp add: toDouble_def nearestDouble_def)
next
  case False
  then have "ulp n = 1" using assms(2) by (intro ulp_small)
  then show ?thesis using False by (simp add: toDouble_def nearestDouble_def)
qed

lemma fold_exact:
  assumes step: "\<And>x s. x \<in> set xs \<Longrightarrow> 0 \<le> s \<Longrightarrow> s + m < 2 ^ 53 \<Longrightarrow> g x s = s + f x"
    and amount: "\<And>x. x \<in> set xs \<Longrightarrow> 0 \<le> f x \<and> f x \<le> m"
    and "0 \<le> m" "0 \<le> (s::int)" "s + m * int (length xs) < 2 ^ 53"
  shows "fold g xs s = s + sum_list (map f xs)"
  using assms
proof (induction xs arbitrary: s)
  case Nil
  then show ?case by simp
next
  case (Cons x xs)
  have m: "s + m \<le> s + m * int (length (x # xs))"
    using Cons.prems(3) by (simp add: algebra_simps)
  then have g: "g x s = s + f x"
    using Cons.prems(1) [of x s] Cons.prems(4,5) by simp
  have f: "0 \<le> f x" "f x \<le> m" using Cons.prems(2) [of x] by simp_all
  have "s + f x + m * int (length xs) \<le> s + m * int (length (x # xs))"
    using f(2) by (simp add: algebra_simps)
  then have "fold g xs (s + f x) = s + f x + sum_list (map f xs)"
    using Cons.prems f(1) by (intro Cons.IH) auto
  then show ?case using g by simp
qed

lemma sum_list_if_const:
  "(\<Sum>x\<leftarrow>xs. if P x then k else 0) = k * int (length (filter P xs))"
  by (induction xs) (simp_all add: algebra_simps)

lemma windowEmpty_8x8:
  assumes "is8x8 b" "binary b" "r < 6" "c < 6"
  shows "windowEmpty b r c = windowFree b r c"
proof -
  have "cellAt b (r + rr) (c + cc) = Some 1 \<longleftrightarrow> b ! (r + rr) ! (c + cc) \<noteq> 0"
    if "rr < 3" "cc < 3" for rr cc
  proof -
    have inb: "r + rr < 8" "c + cc < 8" using assms(3,4) that by simp_all
    have "cellAt b (r + rr) (c + cc) = Some (b ! (r + rr) ! (c + cc))"
      using assms(1) inb by (simp add: cellAt_def is8x8_row)
    moreover have "b ! (r + rr) ! (c + cc) = 0 \<or> b ! (r + rr) ! (c + cc) = 1"
      using binary_cell [OF assms(2), of "r + rr" "c + cc"] assms(1) inb
      by (simp add: is8x8_length is8x8_row)
    ultimately show ?thesis by auto
  qed
  then show ?thesis
    by (auto simp: windowEmpty_def windowFree_def list_ex_iff list_all_iff)
qed

lemma emptyWindows_le: "emptyWindows b \<le> 36"
proof -
  have "emptyWindows b \<le> length (List.product [0..<6] [0..<6::nat])"
    unfolding emptyWindows_def by (rule length_filter_le)
  then show ?thesis by simp
qed

lemma addWindows_8x8:
  assumes "is8x8 b" "binary b" "0 \<le> s" "s + 1800 < 2 ^ 53"
  shows "addWindows b s = s + 50 * int (emptyWindows b)"
proof -
  let ?P = "\<lambda>rc. windowEmpty b (fst rc) (snd rc)"
  let ?xs = "List.product [0..<6] [0..<6::nat]"
  have "fold (\<lambda>rc s. if ?P rc then toDouble (s + 50) else s) ?xs s
      = s + sum_list (map (\<lambda>rc. if ?P rc then 50 else 0) ?xs)"
  proof (rule fold_exact [where m = 50])
    fix x and s :: int
    assume "0 \<le> s" "s + 50 < 2 ^ 53"
    then show "(if ?P x then toDouble (s + 50) else s) = s + (if ?P x then 50 else 0)"
      by (simp add: toDouble_exact)
  qed (use assms(3,4) in simp_all)
  also have "sum_list (map (\<lambda>rc. if ?P rc then 50 else 0) ?xs)
      = 50 * int (length (filter ?P ?xs))"
    by (rule sum_list_if_const)
  also have "filter ?P ?xs = filter (\<lambda>(r, c). windowFree b r c) ?xs"
    by (rule filter_cong) (auto simp: windowEmpty_8x8 [OF assms(1,2)])
  finally show ?thesis by (simp add: addWindows_def emptyWindows_def)
qed

lemma addStreak_8x8:
  assumes "is8x8 b" "i < 8" "0 \<le> s" "s + 60 < 2 ^ 53"
  shows "addStreak b i s = s + ((if longestEmptyRun (b ! i) \<ge> 5 then 30 else 0)
                              + (if longestEmptyRun (boardCol b i) \<ge> 5 then 30 else 0))"
proof -
  obtain hM hC where h: "fold runStep (map (\<lambda>v. v = 0) (b ! i)) (0, 0) = (hM, hC)"
    by (cases "fold runStep (map (\<lambda>v. v = 0) (b ! i)) (0, 0)")
  obtain vM vC where v: "fold runStep (map (\<lambda>v. v = 0) (boardCol b i)) (0, 0) = (vM, vC)"
    by (cases "fold runStep (map (\<lambda>v. v = 0) (boardCol b i)) (0, 0)")
  have "max hM hC = longestEmptyRun (b ! i)" "max vM vC = longestEmptyRun (boardCol b i)"
    using fold_runStep [OF h] fold_runStep [OF v] by simp_all
  then show ?thesis
    unfolding addStreak_def fold_streakStep row_cells [OF assms(1,2)] col_cells [OF assms(1,2)] h v
    using assms(3,4) by (simp add: toDouble_exact Let_def)
qed

lemma rowsWithStreak_le: "rowsWithStreak b \<le> 8"
proof -
  have "rowsWithStreak b \<le> length [0..<8::nat]"
    unfolding rowsWithStreak_def by (rule length_filter_le)
  then show ?thesis by simp
qed

lemma colsWithStreak_le: "colsWithStreak b \<le> 8"
proof -
  have "colsWithStreak b \<le> length [0..<8::nat]"
    unfolding colsWithStreak_def by (rule length_filter_le)
  then show ?thesis by simp
qed

lemma addStreaks_8x8:
  assumes "is8x8 b" "0 \<le> s" "s + 480 < 2 ^ 53"
  shows "fold (addStreak b) [0..<8] s
       = s + 30 * int (rowsWithStreak b) + 30 * int (colsWithStreak b)"
proof -
  let ?h = "\<lambda>i. if longestEmptyRun (b ! i) \<ge> 5 then 30 else (0::int)"
  let ?v = "\<lambda>i. if longestEmptyRun (boardCol b i) \<ge> 5 then 30 else (0::int)"
  have "fold (addStreak b) [0..<8] s = s + sum_list (map (\<lambda>i. ?h i + ?v i) [0..<8])"
  proof (rule fold_exact [where m = 60])
    fix i and s :: int
    assume "i \<in> set [0..<8]" "0 \<le> s" "s + 60 < 2 ^ 53"
    then show "addStreak b i s = s + (?h i + ?v i)"
      using addStreak_8x8 [OF assms(1), of i s] by simp
  qed (use assms(2,3) in simp_all)
  also have "sum_list (map (\<lambda>i. ?h i + ?v i) [0..<8])
      = sum_list (map ?h [0..<8]) + sum_list (map ?v [0..<8])"
    by (rule sum_list_addf)
  finally show ?thesis
    by (simp only: sum_list_if_const rowsWithStreak_def colsWithStreak_def add.assoc)
qed

lemma fold_cells_exact:
  assumes "0 \<le> a" "a + int (sum_list xs) < 2 ^ 53"
  shows "fold (\<lambda>b a. toDouble (a + int b)) xs a = a + int (sum_list xs)"
  using assms
proof (induction xs arbitrary: a)
  case Nil
  then show ?case by simp
next
  case (Cons x xs)
  have "toDouble (a + int x) = a + int x"
    using Cons.prems by (intro toDouble_exact) simp_all
  moreover have "fold (\<lambda>b a. toDouble (a + int b)) xs (a + int x)
      = a + int x + int (sum_list xs)"
    using Cons.prems by (intro Cons.IH) simp_all
  ultimately show ?case by simp
qed

lemma sum_list_binary:
  "\<forall>v \<in> set xs. v = 0 \<or> v = (1::nat) \<Longrightarrow> sum_list xs = length (filter (\<lambda>v. v = 1) xs)"
  by (induction xs) auto

lemma sum_cells:
  assumes "binary b"
  shows "sum_list (concat b) = occupiedCells b"
  unfolding occupiedCells_def
  by (rule sum_list_binary) (use assms in \<open>auto simp: binary_def\<close>)

lemma length_concat_8x8: "is8x8 b \<Longrightarrow> length (concat b) = 64"
proof -
  assume a: "is8x8 b"
  then have "map length b = replicate 8 8"
    by (intro nth_equalityI) (simp_all add: is8x8_length is8x8_row)
  then show ?thesis by (simp add: length_concat sum_list_replicate)
qed

lemma occupiedCells_le: "is8x8 b \<Longrightarrow> occupiedCells b \<le> 64"
  using length_filter_le [of "\<lambda>v. v = 1" "concat b"] length_concat_8x8 [of b]
  by (simp add: occupiedCells_def)

lemma sumCells_8x8:
  assumes "is8x8 b" "binary b"
  shows "sumCells b = int (occupiedCells b)"
proof -
  have "int (sum_list (concat b)) < 2 ^ 53"
    using occupiedCells_le [OF assms(1)] sum_cells [OF assms(2)] by simp
  then show ?thesis
    using fold_cells_exact [of 0 "concat b"] sum_cells [OF assms(2)] by (simp add: sumCells_def)
qed

text \<open>
  C3, as the code has it. On an 8 by 8 board of zeros and ones, and for a number of cleared
  lines of at most 45035996273668, the score is 5000, plus 200 for each cleared line, plus 50
  for each empty 3 by 3 window, plus 30 for each row and 30 for each column whose longest
  run of empty cells is at least 5, plus 64 minus the number of occupied cells. Under the
  bound every intermediate value of the function is below \<open>2 ^ 53\<close>, since the bonuses add at
  most 1800 + 480 + 64, and no addition rounds.
\<close>

theorem calculateStrategyScore_formula:
  assumes "is8x8 b" and "binary b" and "totalCleared \<le> 45035996273668"
  shows "calculateStrategyScore b totalCleared
       = Inr (5000 + 200 * int totalCleared + 50 * int (emptyWindows b)
              + 30 * int (rowsWithStreak b) + 30 * int (colsWithStreak b)
              + (64 - int (occupiedCells b)))"
proof -
  let ?t = "int totalCleared"
  have t: "?t \<le> 45035996273668" using assms(3) by simp
  have s0: "toDouble (5000 + toDouble (?t * 200)) = 5000 + 200 * ?t"
  proof -
    have "toDouble (?t * 200) = ?t * 200" using t by (intro toDouble_exact) simp_all
    moreover have "toDouble (5000 + ?t * 200) = 5000 + ?t * 200"
      using t by (intro toDouble_exact) simp_all
    ultimately show ?thesis by (simp add: mult.commute)
  qed
  have s1: "addWindows b (5000 + 200 * ?t) = 5000 + 200 * ?t + 50 * int (emptyWindows b)"
    using t by (intro addWindows_8x8 [OF assms(1,2)]) simp_all
  have e: "int (emptyWindows b) \<le> 36" using emptyWindows_le [of b] by simp
  have s2: "fold (addStreak b) [0..<8] (5000 + 200 * ?t + 50 * int (emptyWindows b))
      = 5000 + 200 * ?t + 50 * int (emptyWindows b)
        + 30 * int (rowsWithStreak b) + 30 * int (colsWithStreak b)"
    using t e by (intro addStreaks_8x8 [OF assms(1)]) simp_all
  have rc: "int (rowsWithStreak b) \<le> 8" "int (colsWithStreak b) \<le> 8"
    using rowsWithStreak_le [of b] colsWithStreak_le [of b] by simp_all
  have o: "int (occupiedCells b) \<le> 64" using occupiedCells_le [OF assms(1)] by simp
  have s3: "toDouble (64 - int (occupiedCells b)) = 64 - int (occupiedCells b)"
    using o by (intro toDouble_exact) simp_all
  have s4: "toDouble (5000 + 200 * ?t + 50 * int (emptyWindows b)
        + 30 * int (rowsWithStreak b) + 30 * int (colsWithStreak b)
        + (64 - int (occupiedCells b)))
      = 5000 + 200 * ?t + 50 * int (emptyWindows b)
        + 30 * int (rowsWithStreak b) + 30 * int (colsWithStreak b)
        + (64 - int (occupiedCells b))"
    using t e rc o by (intro toDouble_exact) simp_all
  show ?thesis
    unfolding calculateStrategyScore_def s0 s1 s2 sumCells_8x8 [OF assms(1,2)] s3 s4
    using assms(1) by (simp add: is8x8_length)
qed

theorem calculateStrategyScore_formula_witness:
  "is8x8 cornerGapBoard \<and> binary cornerGapBoard \<and> (2::nat) \<le> 45035996273668
   \<and> calculateStrategyScore cornerGapBoard 2
       = Inr (5000 + 200 * int 2 + 50 * int (emptyWindows cornerGapBoard)
              + 30 * int (rowsWithStreak cornerGapBoard) + 30 * int (colsWithStreak cornerGapBoard)
              + (64 - int (occupiedCells cornerGapBoard)))
   \<and> emptyWindows cornerGapBoard = 22 \<and> rowsWithStreak cornerGapBoard = 7
   \<and> colsWithStreak cornerGapBoard = 6 \<and> occupiedCells cornerGapBoard = 15
   \<and> calculateStrategyScore cornerGapBoard 2 = Inr 6939"
proof -
  have w: "is8x8 cornerGapBoard" "binary cornerGapBoard"
    by code_simp+
  have "emptyWindows cornerGapBoard = 22" "rowsWithStreak cornerGapBoard = 7"
    "colsWithStreak cornerGapBoard = 6" "occupiedCells cornerGapBoard = 15"
    by code_simp+
  then show ?thesis using w calculateStrategyScore_formula [OF w, of 2] by simp
qed

lemma cornerBoard_8x8: "is8x8 cornerBoard" "binary cornerBoard"
  by code_simp+

lemma cornerBoard_parts:
  "emptyWindows cornerBoard = 35" "rowsWithStreak cornerBoard = 8"
  "colsWithStreak cornerBoard = 8" "occupiedCells cornerBoard = 1"
  by code_simp+

lemma cornerBoard_rounded:
  "toDouble (fold (addStreak cornerBoard) [0..<8]
       (addWindows cornerBoard (toDouble (5000 + toDouble (45035996273705 * 200))))
     + toDouble (64 - sumCells cornerBoard)) = 9007199254748292"
  by code_simp

text \<open>
  The formula does not hold for every number of cleared lines. With 45035996273705 cleared
  lines, a number a double holds, the formula gives 9007199254748293 on the board with one
  occupied corner cell; that integer lies between two neighbouring doubles, and the
  function returns 9007199254748292.
\<close>

theorem calculateStrategyScore_rounds:
  "is8x8 cornerBoard \<and> binary cornerBoard
   \<and> 5000 + 200 * int 45035996273705 + 50 * int (emptyWindows cornerBoard)
       + 30 * int (rowsWithStreak cornerBoard) + 30 * int (colsWithStreak cornerBoard)
       + (64 - int (occupiedCells cornerBoard)) = 9007199254748293
   \<and> calculateStrategyScore cornerBoard 45035996273705 = Inr 9007199254748292"
  using cornerBoard_8x8 cornerBoard_parts cornerBoard_rounded
  by (simp add: calculateStrategyScore_def is8x8_length)

section \<open>The solver on the empty board with the one-cell piece\<close>


lemma tryAnchors_neverImproves:
  assumes "bestScore st = Some bs" "list_all (neverImproves vps cb p t bs) as"
  shows "tryAnchors vps cb p [] as path t st = Inr st"
  using assms(2)
proof (induction as)
  case Nil
  then show ?case by simp
next
  case (Cons rc as)
  obtain r c where rc: "rc = (r, c)" by (cases rc)
  from Cons have ni: "neverImproves vps cb p t bs (r, c)"
    and rest: "tryAnchors vps cb p [] as path t st = Inr st"
    by (simp_all add: rc)
  show ?case
    using ni rest assms(1) unfolding rc
    by (auto simp: neverImproves_def better_def split: sum.splits bool.splits)
qed

lemma tryAnchors_neverFits:
  assumes "list_all (neverFits vps cb p) as"
  shows "tryAnchors vps cb p rest as path t st = Inr st"
  using assms
proof (induction as)
  case Nil
  then show ?case by simp
next
  case (Cons rc as)
  obtain r c where rc: "rc = (r, c)" by (cases rc)
  from Cons show ?case unfolding rc by (simp add: neverFits_def)
qed

lemma validPiecesOf_single: "validPiecesOf [[[1]]] = [singleCell]"
  by code_simp

lemma getPermutations_single: "getPermutations [0..<length [singleCell]] = [[0]]"
  by code_simp

lemma anchors_first: "anchors = (0, 0) # tl anchors"
  by code_simp

lemma scenarioA_first:
  "canFit emptyBoard singleCell 0 0 = Inr True"
  "applyMove emptyBoard singleCell 0 0 = Inr (cornerBoard, 0)"
  "calculateStrategyScore cornerBoard 0 = Inr 7293"
  by code_simp+

lemma scenarioA_others:
  "list_all (neverImproves [singleCell] emptyBoard 0 0 7293) (tl anchors)"
  by code_simp

lemma scenarioA:
  "suggestMoves emptyBoard [[[1]]]
     = Inr (Some (\<lparr>bestScore = Some 7293, bestSequence = Some [firstStep]\<rparr>, Steps [firstStep]))"
proof -
  let ?st = "\<lparr>bestScore = Some 7293, bestSequence = Some [firstStep]\<rparr>"
  have "solve [singleCell] emptyBoard [0] [] 0 \<lparr>bestScore = None, bestSequence = None\<rparr>
      = tryAnchors [singleCell] emptyBoard 0 [] ((0, 0) # tl anchors) [] 0
          \<lparr>bestScore = None, bestSequence = None\<rparr>"
    using anchors_first by simp
  also have "\<dots> = tryAnchors [singleCell] emptyBoard 0 [] (tl anchors) [] 0 ?st"
    by (simp add: scenarioA_first better_def firstStep_def)
  also have "\<dots> = Inr ?st"
    by (rule tryAnchors_neverImproves [OF _ scenarioA_others]) simp
  finally have "solveAll [singleCell] emptyBoard [[0]] \<lparr>bestScore = None, bestSequence = None\<rparr>
      = Inr ?st"
    by simp
  then show ?thesis
    unfolding suggestMoves_def Let_def validPiecesOf_single getPermutations_single
    by (simp add: renderSuggestions_def singleCell_def)
qed

text \<open>
  C5, as the code has it. On the empty board with the one-cell piece the solver returns one
  step, piece 0 at anchor (0, 0) with no line cleared, and the best score 7293. The final
  board has one occupied corner cell: 35 of the 36 windows are empty (1750), all 8 rows and
  all 8 columns keep an empty run of at least 5 (480), and 63 cells are empty, so the score
  is 5000 + 1750 + 480 + 63.
\<close>

theorem suggestMoves_scenarioA:
  "suggestMoves emptyBoard [[[1]]]
     = Inr (Some (\<lparr>bestScore = Some (5000 + 1750 + 480 + 63), bestSequence = Some [firstStep]\<rparr>,
                  Steps [firstStep]))
   \<and> pieceIdx firstStep = 0 \<and> row firstStep = 0 \<and> col firstStep = 0 \<and> cleared firstStep = 0
   \<and> applyMove emptyBoard singleCell 0 0 = Inr (cornerBoard, 0)
   \<and> 50 * int (emptyWindows cornerBoard) = 1750
   \<and> 30 * int (rowsWithStreak cornerBoard) + 30 * int (colsWithStreak cornerBoard) = 480
   \<and> 64 - int (occupiedCells cornerBoard) = 63"
  using scenarioA scenarioA_first(2) cornerBoard_parts by (simp add: firstStep_def)

text \<open>
  The score 5000 + 1800 + streak bonuses + 63 of the scenario is not the score the solver
  reports: the streak bonuses of the final board are 480, and the difference between
  the reported score and 5000 + 1800 + 63 is not a multiple of 30 at all.
\<close>

theorem suggestMoves_scenarioA_not_1800:
  "map_option (bestScore \<circ> fst) (projr (suggestMoves emptyBoard [[[1]]])) = Some (Some 7293)
   \<and> 30 * int (rowsWithStreak cornerBoard) + 30 * int (colsWithStreak cornerBoard) = 480
   \<and> (7293::int) \<noteq> 5000 + 1800 + 480 + 63
   \<and> (7293 - (5000 + 1800 + 63)) mod 30 \<noteq> (0::int)"
  using scenarioA cornerBoard_parts by simp

section \<open>Pieces without cells\<close>

lemma validPiecesOf_filter:
  "validPiecesOf (filter (\<lambda>p. offsetsOf p \<noteq> []) pieces) = validPiecesOf pieces"
  by (induction pieces) (simp_all add: validPiecesOf_def)

text \<open>
  C6, as the code has it. Patterns without an occupied cell are dropped before the search:
  no empty offset list is searched, and the call gives what it gives on the input without
  those patterns. When nothing remains \<open>suggestMoves\<close> returns at once: the search is not run
  and \<open>renderSuggestions\<close> is not called, so nothing is shown, whatever the board.
\<close>

theorem suggestMoves_without_pieces:
  "[] \<notin> set (validPiecesOf pieces)
   \<and> suggestMoves board pieces = suggestMoves board (filter (\<lambda>p. offsetsOf p \<noteq> []) pieces)
   \<and> (validPiecesOf pieces = [] \<longrightarrow>
        suggestMoves board pieces = Inr None \<and> panel (suggestMoves board pieces) = None)"
proof -
  have "[] \<notin> set (validPiecesOf pieces)" by (simp add: validPiecesOf_def)
  moreover have "suggestMoves board pieces
      = suggestMoves board (filter (\<lambda>p. offsetsOf p \<noteq> []) pieces)"
    by (simp add: suggestMoves_def validPiecesOf_filter)
  moreover have "suggestMoves board pieces = Inr None" if "validPiecesOf pieces = []"
    using that by (simp add: suggestMoves_def)
  ultimately show ?thesis by (simp add: panel_def)
qed

theorem suggestMoves_without_pieces_witness:
  "validPiecesOf [[[0]], []] = []
   \<and> suggestMoves fullBoard [[[0]], []] = Inr None
   \<and> panel (suggestMoves fullBoard [[[0]], []]) = None"
proof -
  have "validPiecesOf [[[0]], []] = []" by code_simp
  then show ?thesis using suggestMoves_without_pieces [of "[[[0]], []]" fullBoard] by blast
qed

lemma fullBoard_neverFits: "list_all (neverFits [singleCell] fullBoard 0) anchors"
  by code_simp

lemma fullBoard_search:
  "suggestMoves fullBoard [[[1]]]
     = Inr (Some (\<lparr>bestScore = None, bestSequence = None\<rparr>, NoSolutionFound))"
  unfolding suggestMoves_def Let_def validPiecesOf_single getPermutations_single
  by (simp add: tryAnchors_neverFits [OF fullBoard_neverFits] renderSuggestions_def)

text \<open>
  With a piece that has no occupied cell as the only piece, nothing is shown, while a search
  that finds no complete assignment shows the no-solution message.
\<close>

theorem suggestMoves_no_pieces_shows_nothing:
  "panel (suggestMoves emptyBoard [[[0]]]) = None
   \<and> panel (suggestMoves emptyBoard [[[0]]]) \<noteq> Some NoSolutionFound
   \<and> panel (suggestMoves fullBoard [[[1]]]) = Some NoSolutionFound"
proof -
  have "validPiecesOf [[[0]]] = []" by code_simp
  then have "suggestMoves emptyBoard [[[0]]] = Inr None" by (simp add: suggestMoves_def)
  then show ?thesis using fullBoard_search by (simp add: panel_def)
qed

section \<open>Offsets of a piece\<close>

lemma set_offsetsOf:
  "set (offsetsOf p) = {\<lparr>dr = r, dc = c\<rparr> | r c. r < length p \<and> c < length (p ! r) \<and> p ! r ! c = 1}"
  unfolding offsetsOf_def by (auto split: if_splits)

lemma Min_nat_0: "finite A \<Longrightarrow> A \<noteq> {} \<Longrightarrow> Min A = (0::nat) \<longleftrightarrow> 0 \<in> A"
  by (metis Min_in Min_le le_zero_eq)

text \<open>
  C8, as the code has it. The offsets of a piece are the row and column indices of the
  occupied cells of its pattern, as they stand. The least row offset is 0 exactly when the
  first row of the pattern has an occupied cell, and the least column offset is 0 exactly
  when the first column has one.
\<close>

theorem offsetsOf_as_indexed:
  assumes "offsetsOf p \<noteq> []"
  shows "set (offsetsOf p)
           = {\<lparr>dr = r, dc = c\<rparr> | r c. r < length p \<and> c < length (p ! r) \<and> p ! r ! c = 1}
       \<and> (Min (dr ` set (offsetsOf p)) = 0 \<longleftrightarrow> (\<exists>c < length (p ! 0). p ! 0 ! c = 1))
       \<and> (Min (dc ` set (offsetsOf p)) = 0 \<longleftrightarrow> (\<exists>r < length p. 0 < length (p ! r) \<and> p ! r ! 0 = 1))"
proof -
  have ne: "set (offsetsOf p) \<noteq> {}" using assms by simp
  then have p: "0 < length p" by (auto simp: set_offsetsOf)
  have "0 \<in> dr ` set (offsetsOf p) \<longleftrightarrow> (\<exists>c < length (p ! 0). p ! 0 ! c = 1)"
    using p by (force simp: set_offsetsOf image_iff)
  moreover have "0 \<in> dc ` set (offsetsOf p) \<longleftrightarrow> (\<exists>r < length p. 0 < length (p ! r) \<and> p ! r ! 0 = 1)"
    by (force simp: set_offsetsOf image_iff)
  moreover have "finite (dr ` set (offsetsOf p))" "finite (dc ` set (offsetsOf p))"
    "dr ` set (offsetsOf p) \<noteq> {}" "dc ` set (offsetsOf p) \<noteq> {}"
    using ne by simp_all
  ultimately have "Min (dr ` set (offsetsOf p)) = 0 \<longleftrightarrow> (\<exists>c < length (p ! 0). p ! 0 ! c = 1)"
    "Min (dc ` set (offsetsOf p)) = 0 \<longleftrightarrow> (\<exists>r < length p. 0 < length (p ! r) \<and> p ! r ! 0 = 1)"
    using Min_nat_0 [of "dr ` set (offsetsOf p)"] Min_nat_0 [of "dc ` set (offsetsOf p)"]
    by blast+
  then show ?thesis using set_offsetsOf [of p] by (intro conjI)
qed

theorem offsetsOf_as_indexed_witness:
  "offsetsOf [[0, 1], [1, 1]] \<noteq> []
   \<and> set (offsetsOf [[0, 1], [1, 1]])
       = {\<lparr>dr = r, dc = c\<rparr> | r c. r < length [[0, 1], [1, 1::nat]]
             \<and> c < length ([[0, 1], [1, 1::nat]] ! r) \<and> [[0, 1], [1, 1::nat]] ! r ! c = 1}
   \<and> Min (dr ` set (offsetsOf [[0, 1], [1, 1]])) = 0
   \<and> Min (dc ` set (offsetsOf [[0, 1], [1, 1]])) = 0"
proof -
  have ne: "offsetsOf [[0, 1], [1, 1]] \<noteq> []" by code_simp
  have "\<exists>c < length ([[0, 1], [1, 1::nat]] ! 0). [[0, 1], [1, 1::nat]] ! 0 ! c = 1"
    by (rule exI [of _ 1]) simp
  moreover have "\<exists>r < length [[0, 1], [1, 1::nat]]. 0 < length ([[0, 1], [1, 1::nat]] ! r)
      \<and> [[0, 1], [1, 1::nat]] ! r ! 0 = 1"
    by (rule exI [of _ 1]) simp
  moreover note t = offsetsOf_as_indexed [OF ne]
  ultimately show ?thesis
    using ne t [THEN conjunct1] t [THEN conjunct2, THEN conjunct1]
      t [THEN conjunct2, THEN conjunct2]
    by (intro conjI) (assumption | blast)+
qed

text \<open>
  A pattern whose first column is empty gives offsets whose least column offset is 1, and
  these are the offsets the solver searches with.
\<close>

theorem offsetsOf_not_normalized:
  "validPiecesOf [[[0, 1]]] = [[\<lparr>dr = 0, dc = 1\<rparr>]]
   \<and> Min (dc ` set (offsetsOf [[0, 1]])) = 1
   \<and> Min (dc ` set (offsetsOf [[0, 1]])) \<noteq> 0"
proof -
  have "offsetsOf [[0, 1]] = [\<lparr>dr = 0, dc = 1\<rparr>]" by code_simp
  then show ?thesis by (simp add: validPiecesOf_def)
qed

section \<open>The search is exhaustive\<close>


lemma applyMove_8x8:
  assumes "is8x8 b" "canFit b offs r c = Inr True"
  shows "\<exists>nb cl. applyMove b offs r c = Inr (nb, cl) \<and> is8x8 nb"
proof -
  from markCells_8x8 [OF assms(1) canFit_bounds [OF assms]]
  obtain m where m: "markCells b offs r c = Inr m" "is8x8 m" by auto
  let ?rows = "filter (rowFull m) [0..<8]" and ?cols = "filter (colFull m) [0..<8]"
  have "set ?rows \<subseteq> {..<8}" by auto
  from fillRows_8x8 [OF m(2) this] have f: "is8x8 (fold fillRow ?rows m)" by blast
  have "set ?cols \<subseteq> {..<8}" by auto
  from clearCols_8x8 [OF f this]
  obtain nb where "clearCols ?cols (fold fillRow ?rows m) = Inr nb" "is8x8 nb" by auto
  with m show ?thesis by (simp add: applyMove_def is8x8_length)
qed

lemma score_8x8: "is8x8 b \<Longrightarrow> \<exists>s. calculateStrategyScore b t = Inr s"
  by (simp add: calculateStrategyScore_def is8x8_length)

lemma reaches_better:
  "reaches (if better s (bestScore st) then \<lparr>bestScore = Some s, bestSequence = Some path\<rparr> else st) s"
  by (auto simp: reaches_def better_def split: option.splits)

lemma reaches_keep:
  "reaches st s' \<Longrightarrow>
   reaches (if better s (bestScore st) then \<lparr>bestScore = Some s, bestSequence = Some path\<rparr> else st) s'"
  by (auto simp: reaches_def better_def split: option.splits)

lemma tryAnchors_total:
  assumes sub: "\<And>cb' path' t' st1. is8x8 cb' \<Longrightarrow>
             \<exists>st2. solve vps cb' rest path' t' st1 = Inr st2 \<and> (\<forall>s. reaches st1 s \<longrightarrow> reaches st2 s)"
    and cb: "is8x8 cb"
  shows "\<exists>st'. tryAnchors vps cb p rest as path t st = Inr st' \<and> (\<forall>s. reaches st s \<longrightarrow> reaches st' s)"
proof (induction as arbitrary: st)
  case Nil
  show ?case by simp
next
  case (Cons rc as)
  obtain r c where rc: "rc = (r, c)" by (cases rc)
  show ?case
  proof (cases "canFit cb (vps ! p) r c = Inr True")
    case True
    from applyMove_8x8 [OF cb True]
    obtain nb cl where a: "applyMove cb (vps ! p) r c = Inr (nb, cl)" "is8x8 nb" by auto
    let ?path = "path @ [\<lparr>pieceIdx = p, row = r, col = c, cleared = cl, boardBefore = cb,
                           offsets = vps ! p\<rparr>]"
    from sub [OF a(2), of ?path "t + cl" st]
    obtain st2 where s2: "solve vps nb rest ?path (t + cl) st = Inr st2"
      "\<forall>s. reaches st s \<longrightarrow> reaches st2 s" by auto
    from Cons.IH [of st2]
    obtain st' where s': "tryAnchors vps cb p rest as path t st2 = Inr st'"
      "\<forall>s. reaches st2 s \<longrightarrow> reaches st' s" by auto
    have "tryAnchors vps cb p rest (rc # as) path t st = Inr st'"
      unfolding rc using True a(1) s2(1) s'(1) by simp
    with s2(2) s'(2) show ?thesis by blast
  next
    case False
    then have "canFit cb (vps ! p) r c = Inr False"
      using canFit_8x8 [OF cb, of "vps ! p" r c] by auto
    then have "tryAnchors vps cb p rest (rc # as) path t st = tryAnchors vps cb p rest as path t st"
      unfolding rc by simp
    with Cons.IH [of st] show ?thesis by simp
  qed
qed

lemma solve_total:
  assumes "is8x8 cb" "\<forall>p \<in> set ps. p < length vps"
  shows "\<exists>st'. solve vps cb ps path t st = Inr st' \<and> (\<forall>s. reaches st s \<longrightarrow> reaches st' s)"
  using assms
proof (induction ps arbitrary: cb path t st)
  case Nil
  from score_8x8 [OF Nil(1)] obtain s where "calculateStrategyScore cb t = Inr s" by auto
  then show ?case by (auto simp: reaches_keep)
next
  case (Cons p ps)
  have "\<forall>p \<in> set ps. p < length vps" using Cons.prems(2) by simp
  then have sub: "\<And>cb' path' t' st1. is8x8 cb' \<Longrightarrow>
      \<exists>st2. solve vps cb' ps path' t' st1 = Inr st2 \<and> (\<forall>s. reaches st1 s \<longrightarrow> reaches st2 s)"
    using Cons.IH by blast
  from tryAnchors_total [OF sub Cons.prems(1)] Cons.prems(2) show ?case by simp
qed

lemma tryAnchors_covers:
  assumes rest: "\<forall>q \<in> set rest. q < length vps"
    and cb: "is8x8 cb"
    and fit: "canFit cb (vps ! p) r c = Inr True"
    and app: "applyMove cb (vps ! p) r c = Inr (nb, cl)"
    and cover: "\<And>path' st1. \<exists>st2. solve vps nb rest path' (t + cl) st1 = Inr st2 \<and> reaches st2 s"
    and mem: "(r, c) \<in> set as"
  shows "\<exists>st'. tryAnchors vps cb p rest as path t st = Inr st' \<and> reaches st' s"
  using mem
proof (induction as arbitrary: st)
  case Nil
  then show ?case by simp
next
  case (Cons a as)
  note total = tryAnchors_total [OF solve_total [OF _ rest] cb]
  show ?case
  proof (cases "a = (r, c)")
    case True
    let ?path = "path @ [\<lparr>pieceIdx = p, row = r, col = c, cleared = cl, boardBefore = cb,
                           offsets = vps ! p\<rparr>]"
    from cover [of ?path st]
    obtain st2 where s2: "solve vps nb rest ?path (t + cl) st = Inr st2" "reaches st2 s" by auto
    from total [of p as path t st2]
    obtain st' where s': "tryAnchors vps cb p rest as path t st2 = Inr st'"
      "\<forall>s. reaches st2 s \<longrightarrow> reaches st' s" by auto
    have "tryAnchors vps cb p rest (a # as) path t st = Inr st'"
      unfolding True using fit app s2(1) s'(1) by simp
    with s2(2) s'(2) show ?thesis by blast
  next
    case False
    then have mem': "(r, c) \<in> set as" using Cons.prems by auto
    obtain r' c' where a: "a = (r', c')" by (cases a)
    show ?thesis
    proof (cases "canFit cb (vps ! p) r' c' = Inr True")
      case True
      from applyMove_8x8 [OF cb True]
      obtain nb' cl' where ap: "applyMove cb (vps ! p) r' c' = Inr (nb', cl')" "is8x8 nb'" by auto
      let ?path = "path @ [\<lparr>pieceIdx = p, row = r', col = c', cleared = cl', boardBefore = cb,
                             offsets = vps ! p\<rparr>]"
      from solve_total [OF ap(2) rest, of ?path "t + cl'" st]
      obtain st2 where s2: "solve vps nb' rest ?path (t + cl') st = Inr st2" by auto
      from Cons.IH [OF mem', of st2]
      obtain st' where "tryAnchors vps cb p rest as path t st2 = Inr st'" "reaches st' s" by auto
      moreover have "tryAnchors vps cb p rest (a # as) path t st
          = tryAnchors vps cb p rest as path t st2"
        unfolding a using True ap(1) s2 by simp
      ultimately show ?thesis by simp
    next
      case False
      then have "canFit cb (vps ! p) r' c' = Inr False"
        using canFit_8x8 [OF cb, of "vps ! p" r' c'] by auto
      then have "tryAnchors vps cb p rest (a # as) path t st
          = tryAnchors vps cb p rest as path t st"
        unfolding a by simp
      with Cons.IH [OF mem', of st] show ?thesis by simp
    qed
  qed
qed

lemma anchors_mem: "r < 8 \<Longrightarrow> c < 8 \<Longrightarrow> (r, c) \<in> set anchors"
  by (simp add: anchors_def)

lemma solve_covers:
  assumes "[] \<notin> set vps" "is8x8 cb" "playSequence vps cb steps t = Some (fb, ft)"
    "calculateStrategyScore fb ft = Inr s"
  shows "\<exists>st'. solve vps cb (map fst steps) path t st = Inr st' \<and> reaches st' s"
  using assms(2,3)
proof (induction steps arbitrary: cb t path st)
  case Nil
  then show ?case using assms(4) by (simp add: reaches_better)
next
  case (Cons step steps)
  obtain p r c where step: "step = (p, r, c)" by (cases step)
  from Cons.prems(2) have p: "p < length vps" and fit: "canFit cb (vps ! p) r c = Inr True"
    unfolding step by (simp_all split: if_splits)
  from applyMove_8x8 [OF Cons.prems(1) fit]
  obtain nb cl where app: "applyMove cb (vps ! p) r c = Inr (nb, cl)" "is8x8 nb" by auto
  from Cons.prems(2) p fit app(1) have play: "playSequence vps nb steps (t + cl) = Some (fb, ft)"
    unfolding step by simp
  have rest: "\<forall>q \<in> set (map fst steps). q < length vps"
    using play
  proof (induction steps arbitrary: nb t cl)
    case Nil
    then show ?case by simp
  next
    case (Cons x xs)
    obtain p' r' c' where x: "x = (p', r', c')" by (cases x)
    from Cons.prems have p': "p' < length vps" unfolding x by (simp split: if_splits)
    from Cons.prems obtain nb' cl' where "playSequence vps nb' xs (t + cl + cl') = Some (fb, ft)"
      unfolding x by (auto split: if_splits sum.splits)
    from Cons.IH [OF this] p' show ?case unfolding x by simp
  qed
  have "vps ! p \<noteq> []" using assms(1) p by (metis nth_mem)
  then obtain off where "off \<in> set (vps ! p)" by (cases "vps ! p") auto
  with canFit_bounds [OF Cons.prems(1) fit] have "r < 8" "c < 8" by fastforce+
  then have mem: "(r, c) \<in> set anchors" by (rule anchors_mem)
  have cover: "\<And>path' st1. \<exists>st2. solve vps nb (map fst steps) path' (t + cl) st1 = Inr st2 \<and> reaches st2 s"
    using Cons.IH [OF app(2) play] by blast
  from tryAnchors_covers [OF rest Cons.prems(1) fit app(1) cover mem, of path st]
  show ?case unfolding step using p by simp
qed

lemma mset_remove_nth:
  assumes "i < length xs"
  shows "mset (take i xs @ drop (i + 1) xs) = mset xs - {#xs ! i#}"
proof -
  have "xs = take i xs @ xs ! i # drop (Suc i) xs" using assms by (rule id_take_nth_drop)
  then have "mset xs = mset (take i xs @ drop (Suc i) xs) + {#xs ! i#}"
    by (metis mset.simps(2) mset_append union_mset_add_mset_right add_mset_add_single)
  then show ?thesis by simp
qed

lemma getPermutations_complete:
  "mset ys = mset xs \<Longrightarrow> ys \<in> set (getPermutations xs)"
proof (induction xs arbitrary: ys rule: getPermutations.induct)
  case (1 arr)
  show ?case
  proof (cases "length arr \<le> 1")
    case True
    have "ys = arr"
    proof (cases arr)
      case Nil
      then show ?thesis using "1.prems" by simp
    next
      case (Cons a as)
      then have "as = []" using True by simp
      then show ?thesis using "1.prems" Cons by simp
    qed
    then show ?thesis using True by (subst getPermutations.simps) simp
  next
    case False
    have "length ys = length arr" using "1.prems" by (rule mset_eq_length)
    then obtain y ys' where ys: "ys = y # ys'" using False by (cases ys) auto
    have "y \<in> set arr" using "1.prems" ys by (metis list.set_intros(1) mset_eq_setD)
    then obtain i where i: "i < length arr" "arr ! i = y" by (auto simp: in_set_conv_nth)
    from "1.prems" ys have "mset arr = add_mset y (mset ys')" by simp
    then have "mset ys' = mset arr - {#y#}" by simp
    then have "mset ys' = mset (take i arr @ drop (i + 1) arr)"
      using i by (simp only: mset_remove_nth)
    from "1.IH" [OF False _ this] i(1)
    have "ys' \<in> set (getPermutations (take i arr @ drop (i + 1) arr))" by simp
    then have "ys \<in> (\<lambda>r. arr ! i # r) ` set (getPermutations (take i arr @ drop (i + 1) arr))"
      using ys i(2) by simp
    then show ?thesis
      using False i(1) by (subst getPermutations.simps) fastforce
  qed
qed

lemma getPermutations_mset:
  "ys \<in> set (getPermutations xs) \<Longrightarrow> mset ys = mset xs"
proof (induction xs arbitrary: ys rule: getPermutations.induct)
  case (1 arr)
  show ?case
  proof (cases "length arr \<le> 1")
    case True
    then show ?thesis using "1.prems" by (subst (asm) getPermutations.simps) simp
  next
    case False
    from "1.prems" False obtain i r where i: "i < length arr"
      and r: "r \<in> set (getPermutations (take i arr @ drop (i + 1) arr))" and ys: "ys = arr ! i # r"
      by (subst (asm) getPermutations.simps) auto
    have "i \<in> set [0..<length arr]" using i by simp
    from "1.IH" [OF False this r] have "mset r = mset (take i arr @ drop (i + 1) arr)" .
    then have "mset r = mset arr - {#arr ! i#}"
      using i by (simp only: mset_remove_nth)
    then show ?thesis using ys i by simp
  qed
qed

lemma solveAll_total:
  assumes "is8x8 b" "\<forall>perm \<in> set perms. \<forall>p \<in> set perm. p < length vps"
  shows "\<exists>st'. solveAll vps b perms st = Inr st' \<and> (\<forall>s. reaches st s \<longrightarrow> reaches st' s)"
  using assms(2)
proof (induction perms arbitrary: st)
  case Nil
  show ?case by simp
next
  case (Cons perm perms)
  from solve_total [OF assms(1), of perm vps "[]" 0 st] Cons.prems
  obtain st1 where s1: "solve vps b perm [] 0 st = Inr st1" "\<forall>s. reaches st s \<longrightarrow> reaches st1 s"
    by auto
  from Cons.IH [of st1] Cons.prems
  obtain st' where "solveAll vps b perms st1 = Inr st'" "\<forall>s. reaches st1 s \<longrightarrow> reaches st' s"
    by auto
  with s1 show ?case by auto
qed

lemma solveAll_covers:
  assumes "is8x8 b" "\<forall>perm \<in> set perms. \<forall>p \<in> set perm. p < length vps"
    and "\<And>st1. \<exists>st2. solve vps b order [] 0 st1 = Inr st2 \<and> reaches st2 s"
    and "order \<in> set perms"
  shows "\<exists>st'. solveAll vps b perms st = Inr st' \<and> reaches st' s"
  using assms(2,4)
proof (induction perms arbitrary: st)
  case Nil
  then show ?case by simp
next
  case (Cons perm perms)
  have valid: "\<forall>perm \<in> set perms. \<forall>p \<in> set perm. p < length vps" using Cons.prems(1) by simp
  show ?case
  proof (cases "perm = order")
    case True
    from assms(3) [of st] obtain st1 where s1: "solve vps b order [] 0 st = Inr st1" "reaches st1 s"
      by auto
    from solveAll_total [OF assms(1) valid, of st1]
    obtain st' where "solveAll vps b perms st1 = Inr st'" "\<forall>s. reaches st1 s \<longrightarrow> reaches st' s"
      by auto
    with s1 True show ?thesis by auto
  next
    case False
    then have mem: "order \<in> set perms" using Cons.prems(2) by simp
    from solve_total [OF assms(1), of perm vps "[]" 0 st] Cons.prems(1)
    obtain st1 where s1: "solve vps b perm [] 0 st = Inr st1" by auto
    from Cons.IH [OF valid mem, of st1] s1 show ?thesis by simp
  qed
qed

lemma playSequence_8x8:
  "is8x8 b \<Longrightarrow> playSequence vps b steps t = Some (fb, ft) \<Longrightarrow> is8x8 fb"
proof (induction steps arbitrary: b t)
  case Nil
  then show ?case by simp
next
  case (Cons step steps)
  obtain p r c where step: "step = (p, r, c)" by (cases step)
  from Cons.prems(2) have fit: "canFit b (vps ! p) r c = Inr True"
    unfolding step by (simp split: if_splits)
  from applyMove_8x8 [OF Cons.prems(1) fit]
  obtain nb cl where app: "applyMove b (vps ! p) r c = Inr (nb, cl)" "is8x8 nb" by auto
  with Cons.prems(2) fit have "playSequence vps nb steps (t + cl) = Some (fb, ft)"
    unfolding step by (simp split: if_splits)
  from Cons.IH [OF app(2) this] show ?case .
qed

text \<open>
  C2. When the search runs (some piece has an occupied cell) on an 8 by 8 board, the best
  score it ends with is at least the score of every complete legal sequence: a sequence
  that places each of the pieces with an occupied cell exactly once, in any order, each at
  an anchor where \<open>canFit\<close> holds, scored on its final board and cumulative cleared count.
\<close>

theorem suggestMoves_best_is_maximal:
  assumes "is8x8 b"
    and "validPiecesOf pieces \<noteq> []"
    and "mset (map fst steps) = mset [0..<length (validPiecesOf pieces)]"
    and "playSequence (validPiecesOf pieces) b steps 0 = Some (fb, ft)"
  shows "\<exists>st d s bs. suggestMoves b pieces = Inr (Some (st, d))
           \<and> calculateStrategyScore fb ft = Inr s \<and> bestScore st = Some bs \<and> s \<le> bs"
proof -
  let ?vps = "validPiecesOf pieces"
  let ?perms = "getPermutations [0..<length ?vps]"
  have ne: "[] \<notin> set ?vps" by (simp add: validPiecesOf_def)
  have fb: "is8x8 fb" using playSequence_8x8 [OF assms(1,4)] .
  from score_8x8 [OF fb] obtain s where s: "calculateStrategyScore fb ft = Inr s" by auto
  have order: "map fst steps \<in> set ?perms"
    using assms(3) by (rule getPermutations_complete)
  have valid: "\<forall>perm \<in> set ?perms. \<forall>p \<in> set perm. p < length ?vps"
  proof (intro ballI)
    fix perm p assume "perm \<in> set ?perms" "p \<in> set perm"
    then have "p \<in> set [0..<length ?vps]"
      using getPermutations_mset mset_eq_setD by blast
    then show "p < length ?vps" by simp
  qed
  have cover: "\<And>st1. \<exists>st2. solve ?vps b (map fst steps) [] 0 st1 = Inr st2 \<and> reaches st2 s"
    using solve_covers [OF ne assms(1,4) s] by blast
  from solveAll_covers [OF assms(1) valid cover order]
  obtain st where st: "solveAll ?vps b ?perms \<lparr>bestScore = None, bestSequence = None\<rparr> = Inr st"
    "reaches st s" by blast
  from st(2) obtain bs where "bestScore st = Some bs" "s \<le> bs"
    by (auto simp: reaches_def split: option.splits)
  with st(1) s assms(2) show ?thesis by (simp add: suggestMoves_def)
qed


theorem suggestMoves_best_is_maximal_witness:
  "is8x8 cornerGapBoard \<and> validPiecesOf twoPieces \<noteq> []
   \<and> mset (map fst twoSteps) = mset [0..<length (validPiecesOf twoPieces)]
   \<and> playSequence (validPiecesOf twoPieces) cornerGapBoard twoSteps 0 = Some (twoStepsBoard, 2)
   \<and> (\<exists>st d s bs. suggestMoves cornerGapBoard twoPieces = Inr (Some (st, d))
         \<and> calculateStrategyScore twoStepsBoard 2 = Inr s
         \<and> bestScore st = Some bs \<and> s \<le> bs)"
proof -
  have w: "is8x8 cornerGapBoard" "validPiecesOf twoPieces \<noteq> []"
    "mset (map fst twoSteps) = mset [0..<length (validPiecesOf twoPieces)]"
    "playSequence (validPiecesOf twoPieces) cornerGapBoard twoSteps 0 = Some (twoStepsBoard, 2)"
    by code_simp+
  show ?thesis using w suggestMoves_best_is_maximal [OF w] by blast
qed

section \<open>Properties of \<open>kMeansCluster\<close>\<close>


lemma assignStep_length: "length (fst (assignStep fl points cA cB j s)) = length (fst s)"
  by (cases s) (simp add: assignStep_def Let_def)

lemma assignStep_nth:
  assumes "j < length (fst s)"
  shows "fst (assignStep fl points cA cB k s) ! j
       = (if j = k then (if distance fl (points ! k) cA < distance fl (points ! k) cB then 0 else 1)
          else fst s ! j)"
  using assms by (cases s) (auto simp: assignStep_def Let_def)

lemma fold_assignStep_length:
  "length (fst (fold (assignStep fl points cA cB) js s)) = length (fst s)"
  by (induction js arbitrary: s) (simp_all add: assignStep_length)

lemma fold_assignStep_nth:
  assumes "j < length (fst s)"
  shows "fst (fold (assignStep fl points cA cB) js s) ! j
       = (if j \<in> set js then (if distance fl (points ! j) cA < distance fl (points ! j) cB then 0 else 1)
          else fst s ! j)"
  using assms
proof (induction js arbitrary: s)
  case Nil
  then show ?case by simp
next
  case (Cons k js)
  have "j < length (fst (assignStep fl points cA cB k s))"
    using Cons.prems by (simp add: assignStep_length)
  from Cons.IH [OF this] assignStep_nth [OF Cons.prems, of fl points cA cB k]
  show ?case by auto
qed

lemma assignRound_length: "length (fst (assignRound fl points cA cB assign)) = length assign"
  by (simp add: assignRound_def fold_assignStep_length)

lemma assignRound_nth:
  assumes "length assign = length points" "j < length points"
  shows "fst (assignRound fl points cA cB assign) ! j
       = (if distance fl (points ! j) cA < distance fl (points ! j) cB then 0 else 1)"
  using assms fold_assignStep_nth [of j "(assign, False)" fl points cA cB "[0..<length points]"]
  by (simp add: assignRound_def)

lemma assignRound_labels:
  assumes "length assign = length points"
  shows "\<forall>l \<in> set (fst (assignRound fl points cA cB assign)). l = 0 \<or> l = 1"
proof
  fix l assume "l \<in> set (fst (assignRound fl points cA cB assign))"
  then obtain j where j: "j < length assign" "l = fst (assignRound fl points cA cB assign) ! j"
    by (auto simp: in_set_conv_nth assignRound_length)
  then show "l = 0 \<or> l = 1" using assignRound_nth [OF assms, of j fl cA cB] assms by auto
qed

lemma iterate_length:
  "length assign = length points \<Longrightarrow> length (iterate fl n points cA cB assign) = length points"
proof (induction n arbitrary: cA cB assign)
  case 0
  then show ?case by simp
next
  case (Suc n)
  obtain assign' changed where r: "assignRound fl points cA cB assign = (assign', changed)"
    by (cases "assignRound fl points cA cB assign")
  then have "length assign' = length points"
    using assignRound_length [of fl points cA cB assign] Suc.prems by simp
  with Suc.IH r show ?case by simp
qed

lemma iterate_labels:
  assumes "length assign = length points" "\<forall>l \<in> set assign. l = 0 \<or> l = 1"
  shows "\<forall>l \<in> set (iterate fl n points cA cB assign). l = 0 \<or> l = 1"
  using assms
proof (induction n arbitrary: cA cB assign)
  case 0
  then show ?case by simp
next
  case (Suc n)
  obtain assign' changed where r: "assignRound fl points cA cB assign = (assign', changed)"
    by (cases "assignRound fl points cA cB assign")
  then have len: "length assign' = length points"
    using assignRound_length [of fl points cA cB assign] Suc.prems(1) by simp
  have lab: "\<forall>l \<in> set assign'. l = 0 \<or> l = 1"
    using assignRound_labels [OF Suc.prems(1), of fl cA cB] r by simp
  from Suc.IH [OF len lab] lab r show ?case by simp
qed

lemma insort_same_samples:
  assumes "map color xs = map color ys" "map brightness xs = map brightness ys"
    "color u = color v" "brightness u = brightness v"
  shows "map color (insort_key brightness u xs) = map color (insort_key brightness v ys)
       \<and> map brightness (insort_key brightness u xs) = map brightness (insort_key brightness v ys)"
  using assms(1,2)
proof (induction xs arbitrary: ys)
  case Nil
  then show ?case using assms(3,4) by simp
next
  case (Cons a xs)
  then obtain a' ys' where ys: "ys = a' # ys'" by (cases ys) auto
  with Cons.prems have "color a = color a'" "brightness a = brightness a'"
    "map color xs = map color ys'" "map brightness xs = map brightness ys'" by simp_all
  with Cons.IH [of ys'] assms(3,4) ys show ?case by simp
qed

lemma sort_same_samples:
  assumes "map color xs = map color ys" "map brightness xs = map brightness ys"
  shows "map color (sort_key brightness xs) = map color (sort_key brightness ys)
       \<and> map brightness (sort_key brightness xs) = map brightness (sort_key brightness ys)"
  using assms
proof (induction xs arbitrary: ys)
  case Nil
  then show ?case by simp
next
  case (Cons a xs)
  then obtain a' ys' where ys: "ys = a' # ys'" by (cases ys) auto
  with Cons.prems have h: "color a = color a'" "brightness a = brightness a'"
    "map color xs = map color ys'" "map brightness xs = map brightness ys'" by simp_all
  from Cons.IH [OF h(3,4)] insort_same_samples [OF _ _ h(1,2)] ys show ?case by simp
qed

lemma seeds_same_samples:
  assumes "map color xs = map color ys" "map brightness xs = map brightness ys"
  shows "seedA xs = seedA ys" "seedB xs = seedB ys"
proof -
  have len: "length xs = length ys" using assms(1) by (rule map_eq_imp_length_eq)
  note s = sort_same_samples [OF assms, THEN conjunct1]
  show "seedA xs = seedA ys"
  proof (cases xs)
    case Nil
    then show ?thesis using len by simp
  next
    case (Cons a as)
    then have "0 < length (sort_key brightness xs)" "0 < length (sort_key brightness ys)"
      using len by auto
    then have "seedA xs = map color (sort_key brightness xs) ! 0"
      "seedA ys = map color (sort_key brightness ys) ! 0"
      by (simp_all add: seedA_def)
    then show ?thesis using s by simp
  qed
  show "seedB xs = seedB ys"
  proof (cases xs)
    case Nil
    then show ?thesis using len by simp
  next
    case (Cons a as)
    then have "length xs - 1 < length (sort_key brightness xs)"
      "length ys - 1 < length (sort_key brightness ys)"
      using len by auto
    then have "seedB xs = map color (sort_key brightness xs) ! (length xs - 1)"
      "seedB ys = map color (sort_key brightness ys) ! (length ys - 1)"
      by (simp_all add: seedB_def)
    then show ?thesis using s len by simp
  qed
qed

lemma seedA_darkest:
  assumes "cells \<noteq> []"
  shows "\<exists>c \<in> set cells. seedA cells = color c \<and> (\<forall>c' \<in> set cells. brightness c \<le> brightness c')"
proof -
  let ?s = "sort_key brightness cells"
  have ne: "?s \<noteq> []" using assms by (metis length_0_conv length_sort)
  have mem: "?s ! 0 \<in> set cells" using ne by (metis length_greater_0_conv nth_mem set_sort)
  have "brightness (?s ! 0) \<le> brightness c'" if "c' \<in> set cells" for c'
  proof -
    from that obtain k where k: "k < length ?s" "?s ! k = c'"
      by (metis in_set_conv_nth set_sort)
    have "sorted (map brightness ?s)" by (rule sorted_sort_key)
    from sorted_nth_mono [OF this, of 0 k] k(1)
    have "map brightness ?s ! 0 \<le> map brightness ?s ! k" by simp
    moreover have "0 < length ?s" using assms by simp
    ultimately show ?thesis using k by simp
  qed
  with mem show ?thesis by (auto simp: seedA_def)
qed

lemma seedB_brightest:
  assumes "cells \<noteq> []"
  shows "\<exists>c \<in> set cells. seedB cells = color c \<and> (\<forall>c' \<in> set cells. brightness c' \<le> brightness c)"
proof -
  let ?s = "sort_key brightness cells"
  let ?n = "length ?s - 1"
  have ne: "?s \<noteq> []" using assms by (metis length_0_conv length_sort)
  have n: "?n < length ?s" using assms by simp
  have mem: "?s ! ?n \<in> set cells" using n by (metis nth_mem set_sort)
  have "brightness c' \<le> brightness (?s ! ?n)" if "c' \<in> set cells" for c'
  proof -
    from that obtain k where k: "k < length ?s" "?s ! k = c'"
      by (metis in_set_conv_nth set_sort)
    have "sorted (map brightness ?s)" by (rule sorted_sort_key)
    moreover have "k \<le> ?n" using k(1) by simp
    ultimately have "map brightness ?s ! k \<le> map brightness ?s ! ?n"
      using n by (intro sorted_nth_mono) simp_all
    then show ?thesis using k n by simp
  qed
  with mem show ?thesis by (auto simp: seedB_def)
qed

lemma tieCells_facts:
  "length tieCells = 64" "seedA tieCells = (0, 0, 0)" "seedB tieCells = (200, 200, 200)"
  "color (tieCells ! 0) = (100, 100, 100)"
  by code_simp+

lemma tieCells_tie:
  assumes "fsub fl 100 0 = 100" and "fsub fl 100 200 = - 100"
    and "fhypot fl (- 100) (- 100) (- 100) = fhypot fl 100 100 100"
  shows "distance fl (100, 100, 100) (0, 0, 0) = distance fl (100, 100, 100) (200, 200, 200)"
  using assms by (simp add: distance_def)

lemma exactArith_tie:
  "fsub exactArith 100 0 = 100" "fsub exactArith 100 200 = - 100"
  "fhypot exactArith (- 100) (- 100) (- 100) = fhypot exactArith 100 100 100"
  by (simp_all add: exactArith_def)

lemma tieCells_first_round:
  assumes "distance fl (100, 100, 100) (0, 0, 0) = distance fl (100, 100, 100) (200, 200, 200)"
  shows "fst (assignRound fl (map color tieCells) (seedA tieCells) (seedB tieCells)
            (replicate (length tieCells) 0)) ! 0 = 1"
proof -
  have "distance fl (map color tieCells ! 0) (seedA tieCells)
      = distance fl (map color tieCells ! 0) (seedB tieCells)"
    using tieCells_facts assms by simp
  then show ?thesis
    using assignRound_nth [of "replicate (length tieCells) 0" "map color tieCells" 0
        fl "seedA tieCells" "seedB tieCells"] tieCells_facts(1)
    by simp
qed

text \<open>
  C9. On a non-empty input, so on the 64 samples of a board, the classifier returns one
  label for every cell, each label 0 or 1, whatever the arithmetic of the engine. The
  labels depend on the colors and the brightness values of the samples only: with the
  same arithmetic, two inputs with the same samples get the same labels. The first center
  is seeded with the color of a cell of least brightness and the second with the color of
  a cell of greatest brightness.
\<close>

theorem kMeansCluster_labels:
  assumes "cells \<noteq> []"
  shows "\<exists>res. kMeansCluster fl cells = Inr res \<and> map fst res = cells
           \<and> length (map snd res) = length cells
           \<and> (\<forall>l \<in> set (map snd res). l = 0 \<or> l = 1)
           \<and> (\<forall>cells'. map color cells' = map color cells
                   \<and> map brightness cells' = map brightness cells
                 \<longrightarrow> (\<exists>res'. kMeansCluster fl cells' = Inr res' \<and> map snd res' = map snd res))
           \<and> (\<exists>c \<in> set cells. seedA cells = color c
                 \<and> (\<forall>c' \<in> set cells. brightness c \<le> brightness c'))
           \<and> (\<exists>c \<in> set cells. seedB cells = color c
                 \<and> (\<forall>c' \<in> set cells. brightness c' \<le> brightness c))"
proof -
  let ?labels = "\<lambda>cs. iterate fl 10 (map color cs) (seedA cs) (seedB cs) (replicate (length cs) 0)"
  have len: "length (?labels cs) = length cs" for cs
    using iterate_length [of "replicate (length cs) 0" "map color cs" fl 10 "seedA cs" "seedB cs"]
    by simp
  have res: "kMeansCluster fl cells = Inr (zip cells (?labels cells))"
    using assms by (simp add: kMeansCluster_def)
  have fst: "map fst (zip cells (?labels cells)) = cells"
    and snd: "map snd (zip cells (?labels cells)) = ?labels cells"
    using len [of cells] by simp_all
  have lab: "\<forall>l \<in> set (?labels cells). l = 0 \<or> l = 1"
    by (rule iterate_labels) simp_all
  have same: "\<exists>res'. kMeansCluster fl cells' = Inr res' \<and> map snd res' = ?labels cells"
    if h: "map color cells' = map color cells" "map brightness cells' = map brightness cells"
    for cells'
  proof -
    have l: "length cells' = length cells" using h(1) by (rule map_eq_imp_length_eq)
    then have "cells' \<noteq> []" using assms by auto
    then have "kMeansCluster fl cells' = Inr (zip cells' (?labels cells'))"
      by (simp add: kMeansCluster_def)
    moreover have "?labels cells' = ?labels cells"
      using seeds_same_samples [OF h] h(1) l by simp
    moreover have "map snd (zip cells' (?labels cells')) = ?labels cells'"
      using len [of cells'] by simp
    ultimately show ?thesis by simp
  qed
  show ?thesis
    using res fst snd len [of cells] lab same seedA_darkest [OF assms] seedB_brightest [OF assms]
    by (intro exI [of _ "zip cells (?labels cells)"] conjI) (simp_all only:, blast)
qed

theorem kMeansCluster_labels_witness:
  "tieCells \<noteq> [] \<and> length tieCells = 64
   \<and> map color mirroredCells = map color tieCells
   \<and> map brightness mirroredCells = map brightness tieCells
   \<and> cellRow (mirroredCells ! 0) \<noteq> cellRow (tieCells ! 0)
   \<and> (\<exists>res res'. kMeansCluster exactArith tieCells = Inr res \<and> map fst res = tieCells
         \<and> length (map snd res) = 64 \<and> (\<forall>l \<in> set (map snd res). l = 0 \<or> l = 1)
         \<and> kMeansCluster exactArith mirroredCells = Inr res' \<and> map snd res' = map snd res)"
proof -
  have ne: "tieCells \<noteq> []" using tieCells_facts(1) by auto
  have same: "map color mirroredCells = map color tieCells"
    "map brightness mirroredCells = map brightness tieCells"
    by (simp_all add: mirroredCells_def)
  have other: "cellRow (mirroredCells ! 0) \<noteq> cellRow (tieCells ! 0)"
    by code_simp
  from kMeansCluster_labels [OF ne, of exactArith] obtain res where res:
    "kMeansCluster exactArith tieCells = Inr res" "map fst res = tieCells"
    "length (map snd res) = length tieCells" "\<forall>l \<in> set (map snd res). l = 0 \<or> l = 1"
    and all: "\<forall>cells'. map color cells' = map color tieCells
                \<and> map brightness cells' = map brightness tieCells
              \<longrightarrow> (\<exists>res'. kMeansCluster exactArith cells' = Inr res' \<and> map snd res' = map snd res)"
    by blast
  from all same obtain res' where
    "kMeansCluster exactArith mirroredCells = Inr res'" "map snd res' = map snd res"
    by blast
  with res show ?thesis using ne same other tieCells_facts(1) by auto
qed

text \<open>
  C7, as the code has it. In a round of assignments every sample gets label 0 when the
  distance computed to the first center, the double \<open>dA\<close>, is less than the distance
  computed to the second, the double \<open>dB\<close>, and label 1 otherwise, whatever the arithmetic of
  the engine. So a sample whose two computed distances are equal gets label 1: it goes to
  the cluster of the second center, the one seeded from the brightest cell. The loop makes
  every round with this assignment, on label arrays as long as the point array.
\<close>

theorem assignRound_tie:
  assumes "length assign = length points" and "j < length points"
  shows "fst (assignRound fl points cA cB assign) ! j
           = (if distance fl (points ! j) cA < distance fl (points ! j) cB then 0 else 1)
       \<and> (distance fl (points ! j) cA = distance fl (points ! j) cB
            \<longrightarrow> fst (assignRound fl points cA cB assign) ! j = 1)"
  using assignRound_nth [OF assms, of fl cA cB] by simp

theorem assignRound_tie_witness:
  "length (replicate (length tieCells) (0::nat)) = length (map color tieCells)
   \<and> 0 < length (map color tieCells)
   \<and> distance exactArith (map color tieCells ! 0) (seedA tieCells)
       = distance exactArith (map color tieCells ! 0) (seedB tieCells)
   \<and> fst (assignRound exactArith (map color tieCells) (seedA tieCells) (seedB tieCells)
            (replicate (length tieCells) 0)) ! 0 = 1"
proof -
  have l: "length (replicate (length tieCells) (0::nat)) = length (map color tieCells)" by simp
  have j: "0 < length (map color tieCells)" using tieCells_facts(1) by simp
  have d: "distance exactArith (map color tieCells ! 0) (seedA tieCells)
      = distance exactArith (map color tieCells ! 0) (seedB tieCells)"
    using tieCells_facts tieCells_tie [OF exactArith_tie] by simp
  show ?thesis
    using l j d assignRound_tie [OF l j, of exactArith "seedA tieCells" "seedB tieCells"]
    by blast
qed

text \<open>
  On the 64 cells of \<open>tieCells\<close> the first center is black, the color of the darkest cells,
  and the second is white. For the grey cell 0 the differences to the first center are 100
  in each channel and those to the second are -100, all of them doubles, and \<open>Math.hypot\<close>
  returns the same double for both triples, as \<open>fhypot\<close> does here. The first round gives the
  cell label 1, not label 0 of the cluster seeded from the darkest cell.
\<close>

theorem kMeans_tie_not_to_darkest:
  "seedA tieCells = (0, 0, 0) \<and> seedB tieCells = (200, 200, 200)
   \<and> color (tieCells ! 0) = (100, 100, 100)
   \<and> fsub exactArith 100 0 = 100 \<and> fsub exactArith 100 200 = - 100
   \<and> fhypot exactArith (- 100) (- 100) (- 100) = fhypot exactArith 100 100 100
   \<and> distance exactArith (100, 100, 100) (0, 0, 0)
       = distance exactArith (100, 100, 100) (200, 200, 200)
   \<and> fst (assignRound exactArith (map color tieCells) (seedA tieCells) (seedB tieCells)
            (replicate (length tieCells) 0)) ! 0 = 1
   \<and> fst (assignRound exactArith (map color tieCells) (seedA tieCells) (seedB tieCells)
            (replicate (length tieCells) 0)) ! 0 \<noteq> 0"
  using tieCells_facts exactArith_tie tieCells_tie [OF exactArith_tie]
    tieCells_first_round [OF tieCells_tie [OF exactArith_tie]]
  by simp

section \<open>Properties of the grid of \<open>processFigureSlot\<close>\<close>

lemma candidates_empty:
  assumes "\<forall>c \<in> set contours. contourArea c > 20 \<longrightarrow> rectWidth c \<le> 12 \<and> rectHeight c \<le> 12"
  shows "candidates contours = []"
proof -
  have "\<forall>d \<in> set (dims contours). d \<le> 12" using assms by (auto simp: dims_def)
  then show ?thesis by (auto simp: candidates_def filter_empty_conv)
qed

text \<open>
  C10. When some blob has an area above 40 and no blob with an area above 20 has a width
  or a height above 12, the base unit is 50: the grid has round(figW / 50) columns and
  round(figH / 50) rows, each clamped to the range from 1 to 5.
\<close>

theorem baseUnit_default:
  assumes "foundAny contours"
    and "\<forall>c \<in> set contours. contourArea c > 20 \<longrightarrow> rectWidth c \<le> 12 \<and> rectHeight c \<le> 12"
  shows "baseUnit contours = 50
       \<and> finalCols contours w h = max 1 (min 5 (round (real_of_int (figW contours w h) / 50)))
       \<and> finalRows contours w h = max 1 (min 5 (round (real_of_int (figH contours w h) / 50)))
       \<and> 1 \<le> finalCols contours w h \<and> finalCols contours w h \<le> 5
       \<and> 1 \<le> finalRows contours w h \<and> finalRows contours w h \<le> 5"
proof -
  have "baseUnit contours = 50" by (simp add: baseUnit_def candidates_empty [OF assms(2)])
  then show ?thesis using assms(1) by (simp add: finalCols_def finalRows_def)
qed

theorem baseUnit_default_witness:
  "foundAny smallBlobs
   \<and> list_all (\<lambda>c. contourArea c > 20 \<longrightarrow> rectWidth c \<le> 12 \<and> rectHeight c \<le> 12) smallBlobs
   \<and> baseUnit smallBlobs = 50
   \<and> figW smallBlobs 200 150 = 151 \<and> figH smallBlobs 200 150 = 14
   \<and> finalCols smallBlobs 200 150 = 3 \<and> finalRows smallBlobs 200 150 = 1"
proof -
  have f: "foundAny smallBlobs"
    and a: "list_all (\<lambda>c. contourArea c > 20 \<longrightarrow> rectWidth c \<le> 12 \<and> rectHeight c \<le> 12) smallBlobs"
    and d: "figW smallBlobs 200 150 = 151" "figH smallBlobs 200 150 = 14"
    by code_simp+
  have r: "round (151 / 50 :: real) = 3" "round (14 / 50 :: real) = 0"
    by (simp_all add: round_def floor_eq_iff)
  from a have a': "\<forall>c \<in> set smallBlobs. contourArea c > 20 \<longrightarrow> rectWidth c \<le> 12 \<and> rectHeight c \<le> 12"
    by (simp only: list_all_iff)
  show ?thesis
    using f a d r baseUnit_default [OF f a', of 200 150] by simp
qed

end
